theory Spec2Isabelle
  imports Main
begin

section \<open>Outcomes of a call\<close>

text \<open>
  Every failure of \<^verbatim>\<open>binder.h\<close> is a \<^verbatim>\<open>std::invalid_argument\<close>; the four messages
  are the four constructors below, in the order of their first appearance in the source:
  \<^item> \<^verbatim>\<open>"binder is empty"\<close> (the specification's \<^verbatim>\<open>EmptyContainer\<close>),
  \<^item> \<^verbatim>\<open>"binder already contains entry with given key"\<close> (\<^verbatim>\<open>DuplicateKey\<close>),
  \<^item> \<^verbatim>\<open>"binder doesn't contain previous entry"\<close> (\<^verbatim>\<open>KeyNotFound\<close> of the anchor),
  \<^item> \<^verbatim>\<open>"note doesn't exist in binder"\<close> (\<^verbatim>\<open>KeyNotFound\<close> of the key).

  A call either returns a value and leaves a state, or throws and leaves the state that
  exists once the stack is unwound, or has no defined behaviour at all (a null or dangling
  pointer is dereferenced, an invalid list iterator is used).
  Failure of memory allocation and exceptions thrown by the operations of \<^verbatim>\<open>K\<close> and
  \<^verbatim>\<open>V\<close> themselves are outside the model, so the two \<^verbatim>\<open>catch (...)\<close> blocks of
  \<^verbatim>\<open>binder_data\<close> are never entered.
\<close>

datatype error =
    Binder_is_empty
  | Already_contains_key
  | No_previous_entry
  | Note_not_in_binder

datatype ('a, 's) outcome =
    Returns 'a 's
  | Throws error 's
  | Undefined

fun post :: "('a, 's) outcome \<Rightarrow> 's option" where
  "post (Returns r s) = Some s"
| "post (Throws e s) = Some s"
| "post Undefined = None"

section \<open>The linked list and its iterators\<close>

text \<open>
  \<^verbatim>\<open>std::list<std::pair<K, V>>\<close>: a sequence of nodes. A node keeps its identity while
  other nodes are inserted or erased, and a list iterator is either such a node or the
  past-the-end position. Node identities are natural numbers; a new node gets an identity
  that no node of the list has (the identity of an erased node may be given again, as the
  address of a freed node may be).
\<close>

type_synonym nid = nat

datatype list_iterator_t = Node nid | End

type_synonym ('k, 'v) node = "nid \<times> 'k \<times> 'v"

fun fresh_node :: "('k, 'v) node list \<Rightarrow> nid" where
  "fresh_node [] = 0"
| "fresh_node ((n, e) # c) = max (Suc n) (fresh_node c)"

text \<open>\<^verbatim>\<open>begin()\<close> of a list.\<close>

fun list_begin :: "('k, 'v) node list \<Rightarrow> list_iterator_t" where
  "list_begin [] = End"
| "list_begin ((n, e) # c) = Node n"

text \<open>\<^verbatim>\<open>++it\<close> for an iterator at node \<open>n\<close>; \<open>None\<close> when \<open>n\<close> is no node of the list.\<close>

fun list_next :: "nid \<Rightarrow> ('k, 'v) node list \<Rightarrow> list_iterator_t option" where
  "list_next n [] = None"
| "list_next n ((m, e) # c) = (if m = n then Some (list_begin c) else list_next n c)"

text \<open>\<^verbatim>\<open>insert(pos, x)\<close>: the new node goes before \<open>pos\<close>.\<close>

fun list_insert :: "list_iterator_t \<Rightarrow> ('k, 'v) node \<Rightarrow> ('k, 'v) node list \<Rightarrow> ('k, 'v) node list option" where
  "list_insert End x c = Some (c @ [x])"
| "list_insert (Node n) x [] = None"
| "list_insert (Node n) x ((m, e) # c) =
     (if m = n then Some (x # (m, e) # c) else map_option (Cons (m, e)) (list_insert (Node n) x c))"

text \<open>\<^verbatim>\<open>erase(it)\<close> for an iterator at node \<open>n\<close>.\<close>

fun list_erase :: "nid \<Rightarrow> ('k, 'v) node list \<Rightarrow> ('k, 'v) node list option" where
  "list_erase n [] = None"
| "list_erase n ((m, e) # c) =
     (if m = n then Some c else map_option (Cons (m, e)) (list_erase n c))"

text \<open>\<^verbatim>\<open>*it\<close> for an iterator at node \<open>n\<close>.\<close>

fun list_deref :: "nid \<Rightarrow> ('k, 'v) node list \<Rightarrow> ('k \<times> 'v) option" where
  "list_deref n [] = None"
| "list_deref n ((m, e) # c) = (if m = n then Some e else list_deref n c)"

text \<open>Assignment to \<^verbatim>\<open>it->second\<close> through a \<^verbatim>\<open>V&\<close>.\<close>

fun list_assign :: "nid \<Rightarrow> 'v \<Rightarrow> ('k, 'v) node list \<Rightarrow> ('k, 'v) node list option" where
  "list_assign n v [] = None"
| "list_assign n v ((m, (k, u)) # c) =
     (if m = n then Some ((m, (k, v)) # c) else map_option (Cons (m, (k, u))) (list_assign n v c))"

section \<open>binder\_data\<close>

text \<open>
  \<^verbatim>\<open>std::map::insert\<close> and \<^verbatim>\<open>emplace\<close> leave the map as it is when the key is there.
\<close>

definition map_insert :: "('k \<rightharpoonup> 'a) \<Rightarrow> 'k \<Rightarrow> 'a \<Rightarrow> ('k \<rightharpoonup> 'a)" where
  "map_insert m k a = (if k \<in> dom m then m else m(k \<mapsto> a))"

record ('k, 'v) binder_data =
  content :: "('k, 'v) node list"
  address :: "'k \<rightharpoonup> nid"

text \<open>\<^verbatim>\<open>binder_data()\<close>\<close>

definition data_new :: "('k, 'v) binder_data" where
  "data_new = \<lparr>content = [], address = Map.empty\<rparr>"

text \<open>
  \<^verbatim>\<open>binder_data(binder_data const& rhs)\<close>: the list is copied, the index is built by the
  loop over the new list. The nodes of the copy are new nodes; identities are local to a
  list, so the copy's nodes are numbered as the original's.
\<close>

definition data_copy :: "('k, 'v) binder_data \<Rightarrow> ('k, 'v) binder_data" where
  "data_copy rhs =
     \<lparr>content = content rhs,
      address = fold (\<lambda>(n, k, v) m. map_insert m k n) (content rhs) Map.empty\<rparr>"

definition data_insert_front ::
  "'k \<Rightarrow> 'v \<Rightarrow> ('k, 'v) binder_data \<Rightarrow> (unit, ('k, 'v) binder_data) outcome" where
  "data_insert_front k v d =
     (if k \<in> dom (address d) then Throws Already_contains_key d
      else
        let n = fresh_node (content d);
            c = (n, k, v) # content d
        in (case list_begin c of
              End \<Rightarrow> Undefined
            | Node b \<Rightarrow> Returns () \<lparr>content = c, address = map_insert (address d) k b\<rparr>))"

definition data_insert_after ::
  "'k \<Rightarrow> 'k \<Rightarrow> 'v \<Rightarrow> ('k, 'v) binder_data \<Rightarrow> (unit, ('k, 'v) binder_data) outcome" where
  "data_insert_after prev_k k v d =
     (if k \<in> dom (address d) then Throws Already_contains_key d
      else
        (case address d prev_k of
           None \<Rightarrow> Throws No_previous_entry d
         | Some prev_iter \<Rightarrow>
             (case list_next prev_iter (content d) of
                None \<Rightarrow> Undefined
              | Some prev_iter' \<Rightarrow>
                  let new_iter = fresh_node (content d) in
                  (case list_insert prev_iter' (new_iter, k, v) (content d) of
                     None \<Rightarrow> Undefined
                   | Some c \<Rightarrow>
                       Returns () \<lparr>content = c, address = map_insert (address d) k new_iter\<rparr>))))"

text \<open>\<^verbatim>\<open>remove()\<close>: the emptiness test reads the index, the erasure reads the list.\<close>

definition data_remove :: "('k, 'v) binder_data \<Rightarrow> (unit, ('k, 'v) binder_data) outcome" where
  "data_remove d =
     (if dom (address d) = {} then Throws Binder_is_empty d
      else
        (case content d of
           [] \<Rightarrow> Undefined
         | (n, k, v) # c \<Rightarrow> Returns () \<lparr>content = c, address = (address d)(k := None)\<rparr>))"

text \<open>\<^verbatim>\<open>remove(K const& k)\<close>\<close>

definition data_remove_key :: "'k \<Rightarrow> ('k, 'v) binder_data \<Rightarrow> (unit, ('k, 'v) binder_data) outcome" where
  "data_remove_key k d =
     (case address d k of
        None \<Rightarrow> Throws Note_not_in_binder d
      | Some iter \<Rightarrow>
          (case list_erase iter (content d) of
             None \<Rightarrow> Undefined
           | Some c \<Rightarrow> Returns () \<lparr>content = c, address = (address d)(k := None)\<rparr>))"

text \<open>
  \<^verbatim>\<open>read(K const& k)\<close> returns \<^verbatim>\<open>V&\<close>: the node whose value the reference designates.
\<close>

definition data_read :: "'k \<Rightarrow> ('k, 'v) binder_data \<Rightarrow> (nid, ('k, 'v) binder_data) outcome" where
  "data_read k d =
     (case address d k of
        None \<Rightarrow> Throws Note_not_in_binder d
      | Some iter \<Rightarrow> (case list_deref iter (content d) of None \<Rightarrow> Undefined | Some e \<Rightarrow> Returns iter d))"

text \<open>\<^verbatim>\<open>read_const(K const& k) const\<close> returns \<^verbatim>\<open>V const&\<close>: the value that is read.\<close>

definition data_read_const :: "'k \<Rightarrow> ('k, 'v) binder_data \<Rightarrow> ('v, ('k, 'v) binder_data) outcome" where
  "data_read_const k d =
     (case address d k of
        None \<Rightarrow> Throws Note_not_in_binder d
      | Some iter \<Rightarrow>
          (case list_deref iter (content d) of None \<Rightarrow> Undefined | Some e \<Rightarrow> Returns (snd e) d))"

definition data_size :: "('k, 'v) binder_data \<Rightarrow> nat" where
  "data_size d = length (content d)"

definition data_cbegin :: "('k, 'v) binder_data \<Rightarrow> list_iterator_t" where
  "data_cbegin d = list_begin (content d)"

definition data_cend :: "('k, 'v) binder_data \<Rightarrow> list_iterator_t" where
  "data_cend d = End"

text \<open>The entries of an instance in iteration order, and the invariant of the data model:
  the index mirrors the sequence.\<close>

definition entries :: "('k, 'v) binder_data \<Rightarrow> ('k \<times> 'v) list" where
  "entries d = map snd (content d)"

definition inv_data :: "('k, 'v) binder_data \<Rightarrow> bool" where
  "inv_data d \<longleftrightarrow>
     distinct (map fst (content d)) \<and>
     distinct (map fst (entries d)) \<and>
     (\<forall>k n. address d k = Some n \<longleftrightarrow> (\<exists>v. (n, k, v) \<in> set (content d)))"

section \<open>Shared ownership\<close>

text \<open>
  A \<^verbatim>\<open>std::shared_ptr<binder_data>\<close> is null or the address of an instance in the heap.
  The only shared pointers that live between two calls are the \<^verbatim>\<open>data_ptr\<close> members of
  the binders (an iterator keeps a plain pointer), so \<^verbatim>\<open>use_count()\<close> is the number of
  binders whose \<^verbatim>\<open>data_ptr\<close> is that address. When a shared pointer lets go of an
  instance that no binder holds, the instance is destroyed.
\<close>

type_synonym addr = nat

type_synonym var = nat

record binder_t =
  data_ptr :: "addr option"
  read_called :: bool

record ('k, 'v) world =
  heap :: "addr \<rightharpoonup> ('k, 'v) binder_data"
  next_addr :: addr
  binders :: "binder_t list"

definition start :: "('k, 'v) world" where
  "start = \<lparr>heap = Map.empty, next_addr = 0, binders = []\<rparr>"

definition use_count :: "('k, 'v) world \<Rightarrow> addr option \<Rightarrow> nat" where
  "use_count w p =
     (case p of
        None \<Rightarrow> 0
      | Some a \<Rightarrow> length (filter (\<lambda>b. data_ptr b = Some a) (binders w)))"

definition make_shared :: "('k, 'v) binder_data \<Rightarrow> ('k, 'v) world \<Rightarrow> addr \<times> ('k, 'v) world" where
  "make_shared d w =
     (next_addr w, w\<lparr>heap := (heap w)(next_addr w \<mapsto> d), next_addr := Suc (next_addr w)\<rparr>)"

definition release :: "addr option \<Rightarrow> ('k, 'v) world \<Rightarrow> ('k, 'v) world" where
  "release p w =
     (case p of
        None \<Rightarrow> w
      | Some a \<Rightarrow> if use_count w (Some a) = 0 then w\<lparr>heap := (heap w)(a := None)\<rparr> else w)"

text \<open>
  \<^verbatim>\<open>get_new_unique_shared(old_ptr, cond)\<close>: the pointer the caller will work on, never
  null. \<open>None\<close> stands for the dereference of a pointer to no instance.
\<close>

definition get_new_unique_shared ::
  "addr option \<Rightarrow> bool \<Rightarrow> ('k, 'v) world \<Rightarrow> (addr \<times> ('k, 'v) world) option" where
  "get_new_unique_shared old_ptr cond w =
     (case old_ptr of
        None \<Rightarrow> Some (make_shared data_new w)
      | Some a \<Rightarrow>
          if cond then Some (a, w)
          else (case heap w a of
                  None \<Rightarrow> None
                | Some d \<Rightarrow> Some (make_shared (data_copy d) w)))"

section \<open>The class binder\<close>

text \<open>
  The binders of a program are numbered in the order of their construction; a call on a
  number that no binder has is \<open>Undefined\<close>.
\<close>

text \<open>\<^verbatim>\<open>binder() noexcept\<close>; the result is the new binder.\<close>

definition binder_new :: "('k, 'v) world \<Rightarrow> (var, ('k, 'v) world) outcome" where
  "binder_new w =
     Returns (length (binders w))
       (w\<lparr>binders := binders w @ [\<lparr>data_ptr = None, read_called = False\<rparr>]\<rparr>)"

text \<open>\<^verbatim>\<open>~binder() noexcept\<close>\<close>

definition binder_destroy :: "var \<Rightarrow> ('k, 'v) world \<Rightarrow> (unit, ('k, 'v) world) outcome" where
  "binder_destroy x w =
     (if length (binders w) \<le> x then Undefined
      else
        let this = binders w ! x
        in Returns () (release (data_ptr this) (w\<lparr>binders := (binders w)[x := this\<lparr>data_ptr := None\<rparr>]\<rparr>)))"

text \<open>\<^verbatim>\<open>binder(binder const& rhs)\<close>; the result is the new binder.\<close>

definition binder_copy :: "var \<Rightarrow> ('k, 'v) world \<Rightarrow> (var, ('k, 'v) world) outcome" where
  "binder_copy rhs w =
     (if length (binders w) \<le> rhs then Undefined
      else
        let r = binders w ! rhs in
        if read_called r then
          (case data_ptr r of
             None \<Rightarrow> Undefined
           | Some a \<Rightarrow>
               (case heap w a of
                  None \<Rightarrow> Undefined
                | Some d \<Rightarrow>
                    (case make_shared (data_copy d) w of
                       (p, w1) \<Rightarrow>
                         Returns (length (binders w1))
                           (w1\<lparr>binders := binders w1 @ [\<lparr>data_ptr = Some p, read_called = False\<rparr>]\<rparr>))))
        else
          Returns (length (binders w))
            (w\<lparr>binders := binders w @ [\<lparr>data_ptr = data_ptr r, read_called = False\<rparr>]\<rparr>))"

text \<open>\<^verbatim>\<open>binder(binder&& rhs) noexcept\<close>; the result is the new binder.\<close>

definition binder_move :: "var \<Rightarrow> ('k, 'v) world \<Rightarrow> (var, ('k, 'v) world) outcome" where
  "binder_move rhs w =
     (if length (binders w) \<le> rhs then Undefined
      else
        let r = binders w ! rhs
        in Returns (length (binders w))
             (w\<lparr>binders := (binders w)[rhs := r\<lparr>data_ptr := None\<rparr>]
                   @ [\<lparr>data_ptr = data_ptr r, read_called = read_called r\<rparr>]\<rparr>))"

text \<open>\<^verbatim>\<open>operator=(binder const& rhs)\<close>\<close>

definition binder_assign :: "var \<Rightarrow> var \<Rightarrow> ('k, 'v) world \<Rightarrow> (unit, ('k, 'v) world) outcome" where
  "binder_assign x rhs w =
     (if length (binders w) \<le> x \<or> length (binders w) \<le> rhs then Undefined
      else
        let this = binders w ! x; r = binders w ! rhs in
        if data_ptr r = None \<or> \<not> read_called r then
          Returns () (release (data_ptr this)
            (w\<lparr>binders := (binders w)[x := \<lparr>data_ptr = data_ptr r, read_called = False\<rparr>]\<rparr>))
        else
          (case data_ptr r of
             None \<Rightarrow> Undefined
           | Some a \<Rightarrow>
               (case heap w a of
                  None \<Rightarrow> Undefined
                | Some d \<Rightarrow>
                    (case make_shared (data_copy d) w of
                       (p, w1) \<Rightarrow>
                         Returns () (release (data_ptr this)
                           (w1\<lparr>binders := (binders w1)[x := \<lparr>data_ptr = Some p, read_called = False\<rparr>]\<rparr>))))))"

text \<open>
  \<^verbatim>\<open>operator=(binder&& rhs) noexcept\<close>. Move assignment of a shared pointer to itself
  leaves it as it is.
\<close>

definition binder_move_assign :: "var \<Rightarrow> var \<Rightarrow> ('k, 'v) world \<Rightarrow> (unit, ('k, 'v) world) outcome" where
  "binder_move_assign x rhs w =
     (if length (binders w) \<le> x \<or> length (binders w) \<le> rhs then Undefined
      else if x = rhs then Returns () w
      else
        let this = binders w ! x; r = binders w ! rhs
        in Returns () (release (data_ptr this)
             (w\<lparr>binders := (binders w)[rhs := r\<lparr>data_ptr := None\<rparr>,
                                         x := \<lparr>data_ptr = data_ptr r, read_called = read_called r\<rparr>]\<rparr>)))"

text \<open>\<^verbatim>\<open>insert_front(K const& k, V const& v)\<close>\<close>

definition binder_insert_front ::
  "var \<Rightarrow> 'k \<Rightarrow> 'v \<Rightarrow> ('k, 'v) world \<Rightarrow> (unit, ('k, 'v) world) outcome" where
  "binder_insert_front x k v w =
     (if length (binders w) \<le> x then Undefined
      else
        let this = binders w ! x in
        (case get_new_unique_shared (data_ptr this) (use_count w (data_ptr this) = 1) w of
           None \<Rightarrow> Undefined
         | Some (new_data_ptr, w1) \<Rightarrow>
             (case heap w1 new_data_ptr of
                None \<Rightarrow> Undefined
              | Some d \<Rightarrow>
                  (case data_insert_front k v d of
                     Undefined \<Rightarrow> Undefined
                   | Throws e d' \<Rightarrow>
                       Throws e (release (Some new_data_ptr)
                         (w1\<lparr>heap := (heap w1)(new_data_ptr \<mapsto> d')\<rparr>))
                   | Returns u d' \<Rightarrow>
                       Returns () (release (data_ptr this)
                         (w1\<lparr>heap := (heap w1)(new_data_ptr \<mapsto> d'),
                             binders := (binders w1)
                               [x := \<lparr>data_ptr = Some new_data_ptr, read_called = False\<rparr>]\<rparr>))))))"

text \<open>\<^verbatim>\<open>insert_after(K const& prev_k, K const& k, V const& v)\<close>\<close>

definition binder_insert_after ::
  "var \<Rightarrow> 'k \<Rightarrow> 'k \<Rightarrow> 'v \<Rightarrow> ('k, 'v) world \<Rightarrow> (unit, ('k, 'v) world) outcome" where
  "binder_insert_after x prev_k k v w =
     (if length (binders w) \<le> x then Undefined
      else
        let this = binders w ! x in
        if data_ptr this = None then Throws Binder_is_empty w
        else
          (case get_new_unique_shared (data_ptr this) (use_count w (data_ptr this) = 1) w of
             None \<Rightarrow> Undefined
           | Some (new_data_ptr, w1) \<Rightarrow>
               (case heap w1 new_data_ptr of
                  None \<Rightarrow> Undefined
                | Some d \<Rightarrow>
                    (case data_insert_after prev_k k v d of
                       Undefined \<Rightarrow> Undefined
                     | Throws e d' \<Rightarrow>
                         Throws e (release (Some new_data_ptr)
                           (w1\<lparr>heap := (heap w1)(new_data_ptr \<mapsto> d')\<rparr>))
                     | Returns u d' \<Rightarrow>
                         Returns () (release (data_ptr this)
                           (w1\<lparr>heap := (heap w1)(new_data_ptr \<mapsto> d'),
                               binders := (binders w1)
                                 [x := \<lparr>data_ptr = Some new_data_ptr, read_called = False\<rparr>]\<rparr>))))))"

text \<open>
  \<^verbatim>\<open>remove()\<close>. When the instance is left without entries, \<^verbatim>\<open>new_data_ptr\<close> lets go of
  it before \<^verbatim>\<open>data_ptr\<close> is assigned.
\<close>

definition binder_remove :: "var \<Rightarrow> ('k, 'v) world \<Rightarrow> (unit, ('k, 'v) world) outcome" where
  "binder_remove x w =
     (if length (binders w) \<le> x then Undefined
      else
        let this = binders w ! x in
        if data_ptr this = None then Throws Binder_is_empty w
        else
          (case get_new_unique_shared (data_ptr this) (use_count w (data_ptr this) = 1) w of
             None \<Rightarrow> Undefined
           | Some (new_data_ptr, w1) \<Rightarrow>
               (case heap w1 new_data_ptr of
                  None \<Rightarrow> Undefined
                | Some d \<Rightarrow>
                    (case data_remove d of
                       Undefined \<Rightarrow> Undefined
                     | Throws e d' \<Rightarrow>
                         Throws e (release (Some new_data_ptr)
                           (w1\<lparr>heap := (heap w1)(new_data_ptr \<mapsto> d')\<rparr>))
                     | Returns u d' \<Rightarrow>
                         let w2 = w1\<lparr>heap := (heap w1)(new_data_ptr \<mapsto> d')\<rparr> in
                         if data_size d' = 0 then
                           Returns () (release (data_ptr this)
                             ((release (Some new_data_ptr) w2)
                                \<lparr>binders := (binders w2)[x := \<lparr>data_ptr = None, read_called = False\<rparr>]\<rparr>))
                         else
                           Returns () (release (data_ptr this)
                             (w2\<lparr>binders := (binders w2)
                                   [x := \<lparr>data_ptr = Some new_data_ptr, read_called = False\<rparr>]\<rparr>))))))"

text \<open>\<^verbatim>\<open>remove(K const& k)\<close>\<close>

definition binder_remove_key :: "var \<Rightarrow> 'k \<Rightarrow> ('k, 'v) world \<Rightarrow> (unit, ('k, 'v) world) outcome" where
  "binder_remove_key x k w =
     (if length (binders w) \<le> x then Undefined
      else
        let this = binders w ! x in
        if data_ptr this = None then Throws Binder_is_empty w
        else
          (case get_new_unique_shared (data_ptr this) (use_count w (data_ptr this) = 1) w of
             None \<Rightarrow> Undefined
           | Some (new_data_ptr, w1) \<Rightarrow>
               (case heap w1 new_data_ptr of
                  None \<Rightarrow> Undefined
                | Some d \<Rightarrow>
                    (case data_remove_key k d of
                       Undefined \<Rightarrow> Undefined
                     | Throws e d' \<Rightarrow>
                         Throws e (release (Some new_data_ptr)
                           (w1\<lparr>heap := (heap w1)(new_data_ptr \<mapsto> d')\<rparr>))
                     | Returns u d' \<Rightarrow>
                         let w2 = w1\<lparr>heap := (heap w1)(new_data_ptr \<mapsto> d')\<rparr> in
                         if data_size d' = 0 then
                           Returns () (release (data_ptr this)
                             ((release (Some new_data_ptr) w2)
                                \<lparr>binders := (binders w2)[x := \<lparr>data_ptr = None, read_called = False\<rparr>]\<rparr>))
                         else
                           Returns () (release (data_ptr this)
                             (w2\<lparr>binders := (binders w2)
                                   [x := \<lparr>data_ptr = Some new_data_ptr, read_called = False\<rparr>]\<rparr>))))))"

text \<open>
  \<^verbatim>\<open>V& read(K const& k)\<close>. A \<^verbatim>\<open>V&\<close> is the value slot of a node of an instance.
\<close>

datatype reference = Ref addr nid

definition binder_read :: "var \<Rightarrow> 'k \<Rightarrow> ('k, 'v) world \<Rightarrow> (reference, ('k, 'v) world) outcome" where
  "binder_read x k w =
     (if length (binders w) \<le> x then Undefined
      else
        let this = binders w ! x in
        if data_ptr this = None then Throws Binder_is_empty w
        else
          (case get_new_unique_shared (data_ptr this) (use_count w (data_ptr this) = 1) w of
             None \<Rightarrow> Undefined
           | Some (new_data_ptr, w1) \<Rightarrow>
               (case heap w1 new_data_ptr of
                  None \<Rightarrow> Undefined
                | Some d \<Rightarrow>
                    (case data_read k d of
                       Undefined \<Rightarrow> Undefined
                     | Throws e d' \<Rightarrow>
                         Throws e (release (Some new_data_ptr)
                           (w1\<lparr>heap := (heap w1)(new_data_ptr \<mapsto> d')\<rparr>))
                     | Returns res d' \<Rightarrow>
                         Returns (Ref new_data_ptr res) (release (data_ptr this)
                           (w1\<lparr>heap := (heap w1)(new_data_ptr \<mapsto> d'),
                               binders := (binders w1)
                                 [x := \<lparr>data_ptr = Some new_data_ptr, read_called = True\<rparr>]\<rparr>))))))"

text \<open>\<^verbatim>\<open>V const& read(K const& k) const\<close>; the result is the value that is read.\<close>

definition binder_read_const :: "var \<Rightarrow> 'k \<Rightarrow> ('k, 'v) world \<Rightarrow> ('v, ('k, 'v) world) outcome" where
  "binder_read_const x k w =
     (if length (binders w) \<le> x then Undefined
      else
        (case data_ptr (binders w ! x) of
           None \<Rightarrow> Throws Binder_is_empty w
         | Some a \<Rightarrow>
             (case heap w a of
                None \<Rightarrow> Undefined
              | Some d \<Rightarrow>
                  (case data_read_const k d of
                     Undefined \<Rightarrow> Undefined
                   | Throws e d' \<Rightarrow> Throws e w
                   | Returns v d' \<Rightarrow> Returns v w))))"

text \<open>\<^verbatim>\<open>size() const noexcept\<close>\<close>

definition binder_size :: "var \<Rightarrow> ('k, 'v) world \<Rightarrow> (nat, ('k, 'v) world) outcome" where
  "binder_size x w =
     (if length (binders w) \<le> x then Undefined
      else
        (case data_ptr (binders w ! x) of
           None \<Rightarrow> Returns 0 w
         | Some a \<Rightarrow> (case heap w a of None \<Rightarrow> Undefined | Some d \<Rightarrow> Returns (data_size d) w)))"

text \<open>\<^verbatim>\<open>clear() noexcept\<close>\<close>

definition binder_clear :: "var \<Rightarrow> ('k, 'v) world \<Rightarrow> (unit, ('k, 'v) world) outcome" where
  "binder_clear x w =
     (if length (binders w) \<le> x then Undefined
      else
        let this = binders w ! x
        in Returns () (release (data_ptr this)
             (w\<lparr>binders := (binders w)[x := \<lparr>data_ptr = None, read_called = False\<rparr>]\<rparr>)))"

text \<open>
  \<^verbatim>\<open>const_iterator\<close>: the optional list iterator and the plain pointer to the instance.
  \<^verbatim>\<open>operator==\<close> compares both members, as equality of the record does.
\<close>

record const_iterator =
  list_iterator :: "list_iterator_t option"
  obj_ptr :: "addr option"

definition binder_cbegin :: "var \<Rightarrow> ('k, 'v) world \<Rightarrow> (const_iterator, ('k, 'v) world) outcome" where
  "binder_cbegin x w =
     (if length (binders w) \<le> x then Undefined
      else
        (case data_ptr (binders w ! x) of
           None \<Rightarrow> Returns \<lparr>list_iterator = None, obj_ptr = None\<rparr> w
         | Some a \<Rightarrow>
             (case heap w a of
                None \<Rightarrow> Undefined
              | Some d \<Rightarrow> Returns \<lparr>list_iterator = Some (data_cbegin d), obj_ptr = Some a\<rparr> w)))"

definition binder_cend :: "var \<Rightarrow> ('k, 'v) world \<Rightarrow> (const_iterator, ('k, 'v) world) outcome" where
  "binder_cend x w =
     (if length (binders w) \<le> x then Undefined
      else
        (case data_ptr (binders w ! x) of
           None \<Rightarrow> Returns \<lparr>list_iterator = None, obj_ptr = None\<rparr> w
         | Some a \<Rightarrow>
             (case heap w a of
                None \<Rightarrow> Undefined
              | Some d \<Rightarrow> Returns \<lparr>list_iterator = Some (data_cend d), obj_ptr = Some a\<rparr> w)))"

text \<open>
  \<^verbatim>\<open>operator*\<close> and \<^verbatim>\<open>operator++\<close> of \<^verbatim>\<open>const_iterator\<close>. A node is found in the
  instance that \<^verbatim>\<open>obj_ptr\<close> designates; \<open>None\<close> stands for an iterator without list
  iterator, at the end of the list, or into an instance or a node that is gone.
\<close>

definition iterator_deref :: "const_iterator \<Rightarrow> ('k, 'v) world \<Rightarrow> 'v option" where
  "iterator_deref it w =
     (case list_iterator it of
        None \<Rightarrow> None
      | Some End \<Rightarrow> None
      | Some (Node n) \<Rightarrow>
          (case obj_ptr it of
             None \<Rightarrow> None
           | Some a \<Rightarrow>
               (case heap w a of
                  None \<Rightarrow> None
                | Some d \<Rightarrow> map_option snd (list_deref n (content d)))))"

definition iterator_next :: "const_iterator \<Rightarrow> ('k, 'v) world \<Rightarrow> const_iterator option" where
  "iterator_next it w =
     (case list_iterator it of
        None \<Rightarrow> None
      | Some End \<Rightarrow> None
      | Some (Node n) \<Rightarrow>
          (case obj_ptr it of
             None \<Rightarrow> None
           | Some a \<Rightarrow>
               (case heap w a of
                  None \<Rightarrow> None
                | Some d \<Rightarrow>
                    map_option (\<lambda>i. it\<lparr>list_iterator := Some i\<rparr>) (list_next n (content d)))))"

text \<open>
  The loop \<^verbatim>\<open>for (it = first; it != stop; ++it) out.push_back(*it);\<close> of a user, with a
  bound on the number of its rounds: \<open>None\<close> when the bound is reached or a step has no
  defined behaviour.
\<close>

fun iterate :: "nat \<Rightarrow> const_iterator \<Rightarrow> const_iterator \<Rightarrow> ('k, 'v) world \<Rightarrow> 'v list option" where
  "iterate 0 it stop w = None"
| "iterate (Suc n) it stop w =
     (if it = stop then Some []
      else
        (case iterator_deref it w of
           None \<Rightarrow> None
         | Some v \<Rightarrow>
             (case iterator_next it w of
                None \<Rightarrow> None
              | Some it' \<Rightarrow> map_option (Cons v) (iterate n it' stop w))))"

text \<open>A write and a read through a \<^verbatim>\<open>V&\<close> that \<^verbatim>\<open>read\<close> returned.\<close>

definition ref_write :: "reference \<Rightarrow> 'v \<Rightarrow> ('k, 'v) world \<Rightarrow> (unit, ('k, 'v) world) outcome" where
  "ref_write r v w =
     (case r of
        Ref a n \<Rightarrow>
          (case heap w a of
             None \<Rightarrow> Undefined
           | Some d \<Rightarrow>
               (case list_assign n v (content d) of
                  None \<Rightarrow> Undefined
                | Some c \<Rightarrow> Returns () (w\<lparr>heap := (heap w)(a \<mapsto> d\<lparr>content := c\<rparr>)\<rparr>))))"

definition ref_read :: "reference \<Rightarrow> ('k, 'v) world \<Rightarrow> ('v, ('k, 'v) world) outcome" where
  "ref_read r w =
     (case r of
        Ref a n \<Rightarrow>
          (case heap w a of
             None \<Rightarrow> Undefined
           | Some d \<Rightarrow>
               (case list_deref n (content d) of
                  None \<Rightarrow> Undefined
                | Some e \<Rightarrow> Returns (snd e) w)))"

section \<open>What a handle shows, and the states of a program\<close>

text \<open>
  The entries that the binder \<open>x\<close> shows to its user, in iteration order: what
  \<^verbatim>\<open>size()\<close>, an iteration from \<^verbatim>\<open>cbegin()\<close> to \<^verbatim>\<open>cend()\<close> and the constant
  \<^verbatim>\<open>read\<close> of every key observe.
\<close>

definition entries_of :: "('k, 'v) world \<Rightarrow> var \<Rightarrow> ('k \<times> 'v) list" where
  "entries_of w x =
     (if length (binders w) \<le> x then []
      else
        (case data_ptr (binders w ! x) of
           None \<Rightarrow> []
         | Some a \<Rightarrow> (case heap w a of None \<Rightarrow> [] | Some d \<Rightarrow> entries d)))"

text \<open>
  The invariant of the states of a program: every instance in the heap was allocated
  below \<open>next_addr\<close>, satisfies the invariant of the data model and has an entry; the
  pointer of every binder is null or the address of an instance; and a binder whose
  \<^verbatim>\<open>read_called\<close> is set shares its instance with no other binder.
\<close>

definition wf :: "('k, 'v) world \<Rightarrow> bool" where
  "wf w \<longleftrightarrow>
     (\<forall>a d. heap w a = Some d \<longrightarrow> a < next_addr w \<and> inv_data d \<and> content d \<noteq> []) \<and>
     (\<forall>x < length (binders w). \<forall>a. data_ptr (binders w ! x) = Some a \<longrightarrow>
        heap w a \<noteq> None \<and>
        (read_called (binders w ! x) \<longrightarrow>
           (\<forall>y < length (binders w). data_ptr (binders w ! y) = Some a \<longrightarrow> y = x)))"

text \<open>
  The five members that change what a binder holds, and a write through a reference,
  as values; \<open>mutate x m\<close> applies one through the binder \<open>x\<close> and gives the
  state that the call leaves, whether it returns or throws.
\<close>

datatype ('k, 'v) mutation =
    Insert_front 'k 'v
  | Insert_after 'k 'k 'v
  | Remove
  | Remove_key 'k
  | Read 'k
  | Write reference 'v

fun mutate :: "var \<Rightarrow> ('k, 'v) mutation \<Rightarrow> ('k, 'v) world \<Rightarrow> ('k, 'v) world option" where
  "mutate x (Insert_front k v) w = post (binder_insert_front x k v w)"
| "mutate x (Insert_after prev_k k v) w = post (binder_insert_after x prev_k k v w)"
| "mutate x Remove w = post (binder_remove x w)"
| "mutate x (Remove_key k) w = post (binder_remove_key x k w)"
| "mutate x (Read k) w = post (binder_read x k w)"
| "mutate x (Write r v) w = post (ref_write r v w)"

text \<open>
  A reference is valid in a state when the instance it points into is there and still has
  the node. It points into the instance of the binder \<open>y\<close> when \<open>y\<close> holds the instance
  at its address.
\<close>

definition ref_valid :: "('k, 'v) world \<Rightarrow> reference \<Rightarrow> bool" where
  "ref_valid w r =
     (case r of
        Ref a n \<Rightarrow> (case heap w a of None \<Rightarrow> False | Some d \<Rightarrow> list_deref n (content d) \<noteq> None))"

definition points_into :: "('k, 'v) world \<Rightarrow> var \<Rightarrow> reference \<Rightarrow> bool" where
  "points_into w y r =
     (case r of Ref a n \<Rightarrow> y < length (binders w) \<and> data_ptr (binders w ! y) = Some a)"





text \<open>
  The actions of a program, and the states it can reach from the state without binders.
  An action with undefined behaviour leaves no state.
\<close>

datatype ('k, 'v) action =
    New
  | Copy var
  | Move var
  | Assign var var
  | Move_assign var var
  | Destroy var
  | Clear var
  | Mutate var "('k, 'v) mutation"
  | Read_const var 'k
  | Size var
  | Cbegin var
  | Cend var

fun exec :: "('k, 'v) action \<Rightarrow> ('k, 'v) world \<Rightarrow> ('k, 'v) world option" where
  "exec New w = post (binder_new w)"
| "exec (Copy rhs) w = post (binder_copy rhs w)"
| "exec (Move rhs) w = post (binder_move rhs w)"
| "exec (Assign x rhs) w = post (binder_assign x rhs w)"
| "exec (Move_assign x rhs) w = post (binder_move_assign x rhs w)"
| "exec (Destroy x) w = post (binder_destroy x w)"
| "exec (Clear x) w = post (binder_clear x w)"
| "exec (Mutate x m) w = mutate x m w"
| "exec (Read_const x k) w = post (binder_read_const x k w)"
| "exec (Size x) w = post (binder_size x w)"
| "exec (Cbegin x) w = post (binder_cbegin x w)"
| "exec (Cend x) w = post (binder_cend x w)"

inductive reachable :: "('k, 'v) world \<Rightarrow> bool" where
  reachable_start: "reachable start"
| reachable_exec: "reachable w \<Longrightarrow> exec c w = Some w' \<Longrightarrow> reachable w'"

text \<open>
  The common shape of the five members that work on \<^verbatim>\<open>new_data_ptr\<close>, for the proofs:
  whether a null \<^verbatim>\<open>data_ptr\<close> is accepted, the member of the instance that is called,
  the value given to \<^verbatim>\<open>read_called\<close>, and whether an instance left without entries is
  let go.
\<close>

definition cow ::
  "bool \<Rightarrow> (('k, 'v) binder_data \<Rightarrow> ('r, ('k, 'v) binder_data) outcome) \<Rightarrow> bool \<Rightarrow> bool \<Rightarrow>
   var \<Rightarrow> ('k, 'v) world \<Rightarrow> (addr \<times> 'r, ('k, 'v) world) outcome" where
  "cow null_ok f flag shrink x w =
     (if length (binders w) \<le> x then Undefined
      else
        let this = binders w ! x in
        if data_ptr this = None \<and> \<not> null_ok then Throws Binder_is_empty w
        else
          (case get_new_unique_shared (data_ptr this) (use_count w (data_ptr this) = 1) w of
             None \<Rightarrow> Undefined
           | Some (new_data_ptr, w1) \<Rightarrow>
               (case heap w1 new_data_ptr of
                  None \<Rightarrow> Undefined
                | Some d \<Rightarrow>
                    (case f d of
                       Undefined \<Rightarrow> Undefined
                     | Throws e d' \<Rightarrow>
                         Throws e (release (Some new_data_ptr)
                           (w1\<lparr>heap := (heap w1)(new_data_ptr \<mapsto> d')\<rparr>))
                     | Returns res d' \<Rightarrow>
                         let w2 = w1\<lparr>heap := (heap w1)(new_data_ptr \<mapsto> d')\<rparr> in
                         if shrink \<and> data_size d' = 0 then
                           Returns (new_data_ptr, res) (release (data_ptr this)
                             ((release (Some new_data_ptr) w2)
                                \<lparr>binders := (binders w2)[x := \<lparr>data_ptr = None, read_called = flag\<rparr>]\<rparr>))
                         else
                           Returns (new_data_ptr, res) (release (data_ptr this)
                             (w2\<lparr>binders := (binders w2)
                                   [x := \<lparr>data_ptr = Some new_data_ptr, read_called = flag\<rparr>]\<rparr>))))))"

fun map_result :: "('a \<Rightarrow> 'b) \<Rightarrow> ('a, 's) outcome \<Rightarrow> ('b, 's) outcome" where
  "map_result g (Returns r s) = Returns (g r) s"
| "map_result g (Throws e s) = Throws e s"
| "map_result g Undefined = Undefined"

text \<open>The instance a binder works on: the one it holds, or a new one when it holds none.\<close>

definition cur :: "('k, 'v) world \<Rightarrow> var \<Rightarrow> ('k, 'v) binder_data" where
  "cur w x =
     (case data_ptr (binders w ! x) of
        None \<Rightarrow> data_new
      | Some a \<Rightarrow> (case heap w a of None \<Rightarrow> data_new | Some d \<Rightarrow> d))"

text \<open>
  What the proofs need of a member of the instance: on an instance that satisfies the
  invariant it has defined behaviour, leaves the instance unchanged when it throws, and
  keeps the invariant when it returns, with an entry left unless the caller lets go of
  an instance without entries.
\<close>

definition good :: "bool \<Rightarrow> (('k, 'v) binder_data \<Rightarrow> ('r, ('k, 'v) binder_data) outcome) \<Rightarrow> bool" where
  "good shrink f \<longleftrightarrow>
     (\<forall>d. inv_data d \<longrightarrow>
        (case f d of
           Undefined \<Rightarrow> False
         | Throws e d' \<Rightarrow> d' = d
         | Returns r d' \<Rightarrow> inv_data d' \<and> (\<not> shrink \<longrightarrow> content d' \<noteq> [])))"

text \<open>What \<open>cow\<close> leaves when the member returns and the working pointer is \<open>p\<close>.\<close>

definition cow_post ::
  "('k, 'v) world \<Rightarrow> var \<Rightarrow> bool \<Rightarrow> bool \<Rightarrow> addr \<Rightarrow> ('k, 'v) binder_data \<Rightarrow> ('k, 'v) world \<Rightarrow> bool" where
  "cow_post w x flag shrink p d' w' \<longleftrightarrow>
     binders w' = (binders w)[x := \<lparr>data_ptr = (if shrink \<and> content d' = [] then None else Some p),
                                   read_called = flag\<rparr>] \<and>
     next_addr w \<le> next_addr w' \<and> p < next_addr w' \<and>
     (\<forall>y < length (binders w). y \<noteq> x \<longrightarrow> data_ptr (binders w ! y) \<noteq> Some p) \<and>
     (\<forall>a'. heap w' a' =
        (if a' = p then (if shrink \<and> content d' = [] then None else Some d')
         else if data_ptr (binders w ! x) = Some a' \<and>
                 (\<forall>y < length (binders w). y \<noteq> x \<longrightarrow> data_ptr (binders w ! y) \<noteq> Some a')
              then None
         else heap w a'))"

text \<open>
  A call through the handle \<open>x\<close> with its result dropped, and the member of the instance
  that the call delegates to (a write through a reference calls none).
\<close>

fun call :: "var \<Rightarrow> ('k, 'v) mutation \<Rightarrow> ('k, 'v) world \<Rightarrow> (unit, ('k, 'v) world) outcome" where
  "call x (Insert_front k v) w = binder_insert_front x k v w"
| "call x (Insert_after prev_k k v) w = binder_insert_after x prev_k k v w"
| "call x Remove w = binder_remove x w"
| "call x (Remove_key k) w = binder_remove_key x k w"
| "call x (Read k) w = map_result (\<lambda>r. ()) (binder_read x k w)"
| "call x (Write r v) w = ref_write r v w"

fun data_call ::
  "('k, 'v) mutation \<Rightarrow> ('k, 'v) binder_data \<Rightarrow> (unit, ('k, 'v) binder_data) outcome" where
  "data_call (Insert_front k v) d = data_insert_front k v d"
| "data_call (Insert_after prev_k k v) d = data_insert_after prev_k k v d"
| "data_call Remove d = data_remove d"
| "data_call (Remove_key k) d = data_remove_key k d"
| "data_call (Read k) d = map_result (\<lambda>r. ()) (data_read k d)"
| "data_call (Write r v) d = Returns () d"

text \<open>The key that immediately follows the key \<open>pk\<close> in a sequence of entries.\<close>

fun successor :: "'k \<Rightarrow> ('k \<times> 'v) list \<Rightarrow> 'k option" where
  "successor pk [] = None"
| "successor pk [e] = None"
| "successor pk (e # e' # es) = (if fst e = pk then Some (fst e') else successor pk (e' # es))"

text \<open>
  The empty state of a handle, as its user sees it: no instance, \<^verbatim>\<open>size()\<close> is 0 and
  \<^verbatim>\<open>cbegin()\<close> equals \<^verbatim>\<open>cend()\<close>.
\<close>

definition shows_empty :: "('k, 'v) world \<Rightarrow> var \<Rightarrow> bool" where
  "shows_empty w x \<longleftrightarrow>
     data_ptr (binders w ! x) = None \<and> binder_size x w = Returns 0 w \<and>
     binder_cbegin x w = binder_cend x w \<and> binder_cbegin x w \<noteq> Undefined"

text \<open>Three states for the examples: one handle without entries; one handle with the
  entry \<open>(1, 10)\<close>; and that handle after a mutable read of the key.\<close>

definition world_0 :: "(nat, nat) world" where
  "world_0 = \<lparr>heap = Map.empty, next_addr = 0, binders = [\<lparr>data_ptr = None, read_called = False\<rparr>]\<rparr>"

definition world_1 :: "(nat, nat) world" where
  "world_1 =
     \<lparr>heap = [0 \<mapsto> \<lparr>content = [(0, 1, 10)], address = [1 \<mapsto> 0]\<rparr>],
      next_addr = 1,
      binders = [\<lparr>data_ptr = Some 0, read_called = False\<rparr>]\<rparr>"

definition world_2 :: "(nat, nat) world" where
  "world_2 =
     \<lparr>heap = [0 \<mapsto> \<lparr>content = [(0, 1, 10)], address = [1 \<mapsto> 0]\<rparr>],
      next_addr = 1,
      binders = [\<lparr>data_ptr = Some 0, read_called = True\<rparr>]\<rparr>"

text \<open>The state after the handle of \<open>world_2\<close> was moved into a new handle.\<close>

definition world_3 :: "(nat, nat) world" where
  "world_3 =
     \<lparr>heap = [0 \<mapsto> \<lparr>content = [(0, 1, 10)], address = [1 \<mapsto> 0]\<rparr>],
      next_addr = 1,
      binders = [\<lparr>data_ptr = None, read_called = True\<rparr>,
                 \<lparr>data_ptr = Some 0, read_called = True\<rparr>]\<rparr>"


definition world_5 :: "(nat, nat) world" where
  "world_5 =
     \<lparr>heap = [0 \<mapsto> \<lparr>content = [(1, 2, 20), (0, 1, 10)], address = [1 \<mapsto> 0, 2 \<mapsto> 1]\<rparr>],
      next_addr = 1,
      binders = [\<lparr>data_ptr = Some 0, read_called = False\<rparr>,
                 \<lparr>data_ptr = Some 0, read_called = False\<rparr>]\<rparr>"




section \<open>The list\<close>

lemma fresh_node_gt: "(n, e) \<in> set c \<Longrightarrow> n < fresh_node c"
  by (induction c) auto

lemma fresh_node_notin: "fresh_node c \<notin> fst ` set c"
  using fresh_node_gt by fastforce

lemma list_deref_Some_iff:
  "distinct (map fst c) \<Longrightarrow> list_deref n c = Some e \<longleftrightarrow> (n, e) \<in> set c"
  by (induction c) (auto simp: rev_image_eqI split: if_splits)

lemma list_next_split:
  "distinct (map fst (xs @ (n, e) # ys)) \<Longrightarrow> list_next n (xs @ (n, e) # ys) = Some (list_begin ys)"
  by (induction xs) auto

lemma list_insert_split:
  "distinct (map fst (xs @ ys)) \<Longrightarrow> list_insert (list_begin ys) x (xs @ ys) = Some (xs @ x # ys)"
proof (induction xs)
  case Nil
  then show ?case by (cases ys) auto
next
  case (Cons a xs)
  then show ?case by (cases ys; cases a) auto
qed

lemma list_erase_split:
  "distinct (map fst (xs @ (n, e) # ys)) \<Longrightarrow> list_erase n (xs @ (n, e) # ys) = Some (xs @ ys)"
  by (induction xs) auto

lemma list_assign_split:
  "distinct (map fst (xs @ (n, k, u) # ys)) \<Longrightarrow>
   list_assign n v (xs @ (n, k, u) # ys) = Some (xs @ (n, k, v) # ys)"
  by (induction xs) auto

section \<open>The invariant of an instance\<close>

lemma inv_data_new: "inv_data data_new"
  by (simp add: inv_data_def data_new_def entries_def)

lemma inv_address_iff:
  "inv_data d \<Longrightarrow> address d k = Some n \<longleftrightarrow> (\<exists>v. (n, k, v) \<in> set (content d))"
  by (simp add: inv_data_def)

lemma inv_dom_address: "inv_data d \<Longrightarrow> dom (address d) = fst ` set (entries d)"
  by (force simp: inv_data_def entries_def dom_def)

lemma inv_address_empty: "inv_data d \<Longrightarrow> address d = Map.empty \<longleftrightarrow> content d = []"
  using inv_dom_address[of d] by (simp add: entries_def flip: dom_eq_empty_conv)

lemma inv_data_distinct:
  "inv_data d \<Longrightarrow> distinct (map fst (content d)) \<and> distinct (map fst (map snd (content d)))"
  by (simp add: inv_data_def entries_def)

lemma inv_key_notin:
  "inv_data d \<Longrightarrow> k \<notin> dom (address d) \<Longrightarrow> k \<notin> (\<lambda>x. fst (snd x)) ` set (content d)"
  using inv_dom_address[of d] by (simp add: entries_def image_image)

lemma entries_split:
  "inv_data d \<Longrightarrow> address d k = Some n \<Longrightarrow>
   \<exists>xs v ys. content d = xs @ (n, k, v) # ys"
  using inv_address_iff split_list by fastforce

lemma fold_map_insert:
  "distinct (map (fst \<circ> snd) c) \<Longrightarrow>
   fold (\<lambda>(n, k, v) m. map_insert m k n) c m k =
     (case m k of Some a \<Rightarrow> Some a | None \<Rightarrow> map_of (map (\<lambda>(n, k, v). (k, n)) c) k)"
proof (induction c arbitrary: m)
  case Nil
  then show ?case by (simp split: option.splits)
next
  case (Cons a c)
  then show ?case
    by (cases a) (auto simp: map_insert_def dom_def split: option.splits)
qed

lemma data_copy_inv: "inv_data d \<Longrightarrow> data_copy d = d"
proof -
  assume i: "inv_data d"
  have dk: "distinct (map (fst \<circ> snd) (content d))"
    using i by (simp add: inv_data_def entries_def)
  have "fold (\<lambda>(n, k, v) m. map_insert m k n) (content d) Map.empty k = address d k" for k
  proof (cases "address d k")
    case None
    then have "k \<notin> fst ` set (map (\<lambda>(n, k, v). (k, n)) (content d))"
      using inv_address_iff[OF i] by force
    then show ?thesis using None dk by (simp add: fold_map_insert map_of_eq_None_iff)
  next
    case (Some n)
    then obtain v where "(n, k, v) \<in> set (content d)"
      using inv_address_iff[OF i] by blast
    then have "(k, n) \<in> set (map (\<lambda>(n, k, v). (k, n)) (content d))" by force
    moreover have "distinct (map fst (map (\<lambda>(n, k, v). (k, n)) (content d)))"
      using dk by (simp add: comp_def case_prod_unfold)
    ultimately show ?thesis using Some dk by (simp add: fold_map_insert)
  qed
  then show ?thesis by (simp add: data_copy_def fun_eq_iff)
qed

lemma inv_data_insertI:
  assumes i: "inv_data d" and k: "k \<notin> dom (address d)"
    and s: "set c = insert (n, k, v) (set (content d))"
    and d1: "distinct (map fst c)" and d2: "distinct (map fst (map snd c))"
  shows "inv_data \<lparr>content = c, address = (address d)(k \<mapsto> n)\<rparr>"
proof -
  have kn: "\<And>m u. (m, k, u) \<notin> set (content d)"
    using i k inv_address_iff by fastforce
  have "((address d)(k \<mapsto> n)) k' = Some n' \<longleftrightarrow> (\<exists>v'. (n', k', v') \<in> set c)" for k' n'
  proof (cases "k' = k")
    case True
    then show ?thesis using kn s by auto
  next
    case False
    then show ?thesis using inv_address_iff[OF i] s by auto
  qed
  then show ?thesis using d1 d2 by (simp add: inv_data_def entries_def)
qed

lemma inv_data_eraseI:
  assumes i: "inv_data d" and c: "content d = xs @ (n, k, v) # ys"
  shows "inv_data \<lparr>content = xs @ ys, address = (address d)(k := None)\<rparr>"
proof -
  have d: "distinct (map fst (xs @ (n, k, v) # ys))"
       "distinct (map fst (map snd (xs @ (n, k, v) # ys)))"
    using inv_data_distinct[OF i] unfolding c by blast+
  have kn: "\<And>m u. (m, k, u) \<notin> set (xs @ ys)"
    using d(2) by (auto simp: image_iff)
  have "((address d)(k := None)) k' = Some n' \<longleftrightarrow> (\<exists>v'. (n', k', v') \<in> set (xs @ ys))" for k' n'
  proof (cases "k' = k")
    case True
    then show ?thesis using kn by auto
  next
    case False
    then show ?thesis using inv_address_iff[OF i] c by auto
  qed
  then show ?thesis using d by (simp add: inv_data_def entries_def)
qed

section \<open>The members of an instance\<close>

lemma data_insert_front_throws:
  "k \<in> dom (address d) \<Longrightarrow> data_insert_front k v d = Throws Already_contains_key d"
  by (simp add: data_insert_front_def)

lemma data_insert_front_returns:
  assumes "inv_data d" "k \<notin> dom (address d)"
  shows "\<exists>d'. data_insert_front k v d = Returns () d' \<and> inv_data d' \<and>
           entries d' = (k, v) # entries d"
proof -
  let ?n = "fresh_node (content d)"
  let ?c = "(?n, k, v) # content d"
  let ?d = "\<lparr>content = ?c, address = (address d)(k \<mapsto> ?n)\<rparr>"
  have r: "data_insert_front k v d = Returns () ?d"
    using assms(2) by (simp add: data_insert_front_def map_insert_def Let_def)
  have d1: "distinct (map fst ?c)"
    using inv_data_distinct[OF assms(1)] fresh_node_notin[of "content d"] by simp
  have d2: "distinct (map fst (map snd ?c))"
    using inv_data_distinct[OF assms(1)] inv_key_notin[OF assms] by simp
  have "inv_data ?d"
    using assms d1 d2 by (intro inv_data_insertI) simp_all
  then show ?thesis using r by (simp add: entries_def)
qed

lemma data_insert_after_throws_dup:
  "k \<in> dom (address d) \<Longrightarrow> data_insert_after pk k v d = Throws Already_contains_key d"
  by (simp add: data_insert_after_def)

lemma data_insert_after_throws_prev:
  "k \<notin> dom (address d) \<Longrightarrow> pk \<notin> dom (address d) \<Longrightarrow>
   data_insert_after pk k v d = Throws No_previous_entry d"
  by (auto simp: data_insert_after_def dom_def)

lemma data_insert_after_returns:
  assumes "inv_data d" "k \<notin> dom (address d)" "pk \<in> dom (address d)"
  shows "\<exists>d' xs pv ys. data_insert_after pk k v d = Returns () d' \<and> inv_data d' \<and>
           entries d = xs @ (pk, pv) # ys \<and> entries d' = xs @ (pk, pv) # (k, v) # ys"
proof -
  let ?n = "fresh_node (content d)"
  obtain p where p: "address d pk = Some p" using assms(3) by blast
  then obtain xs pv ys where c: "content d = xs @ (p, pk, pv) # ys"
    using entries_split[OF assms(1)] by blast
  have dn: "distinct (map fst (content d))" using assms(1) by (simp add: inv_data_def)
  let ?c = "xs @ (p, pk, pv) # (?n, k, v) # ys"
  let ?d = "\<lparr>content = ?c, address = (address d)(k \<mapsto> ?n)\<rparr>"
  have nx: "list_next p (content d) = Some (list_begin ys)"
    using dn unfolding c by (rule list_next_split)
  have "list_insert (list_begin ys) (?n, k, v) ((xs @ [(p, pk, pv)]) @ ys) = Some ((xs @ [(p, pk, pv)]) @ (?n, k, v) # ys)"
    using dn unfolding c by (intro list_insert_split) simp
  then have ins: "list_insert (list_begin ys) (?n, k, v) (content d) = Some ?c"
    by (simp add: c)
  have r: "data_insert_after pk k v d = Returns () ?d"
    using assms(2) p nx ins by (simp add: data_insert_after_def map_insert_def Let_def)
  have fr: "?n \<notin> fst ` set (xs @ (p, pk, pv) # ys)"
    using fresh_node_notin[of "content d"] unfolding c .
  have d1: "distinct (map fst ?c)"
    using inv_data_distinct[OF assms(1)] fr unfolding c by auto
  have kk: "k \<notin> (\<lambda>x. fst (snd x)) ` set (xs @ (p, pk, pv) # ys)"
    using inv_key_notin[OF assms(1,2)] unfolding c .
  have d2: "distinct (map fst (map snd ?c))"
    using inv_data_distinct[OF assms(1)] kk unfolding c by auto
  have "inv_data ?d"
    using assms(1,2) d1 d2 by (intro inv_data_insertI) (auto simp: c)
  moreover have "entries d = map snd xs @ (pk, pv) # map snd ys" by (simp add: entries_def c)
  moreover have "entries ?d = map snd xs @ (pk, pv) # (k, v) # map snd ys" by (simp add: entries_def)
  ultimately show ?thesis using r by blast
qed

lemma data_remove_throws:
  "inv_data d \<Longrightarrow> content d = [] \<Longrightarrow> data_remove d = Throws Binder_is_empty d"
  by (simp add: data_remove_def inv_address_empty)

lemma data_remove_returns:
  assumes "inv_data d" "content d \<noteq> []"
  shows "\<exists>d'. data_remove d = Returns () d' \<and> inv_data d' \<and> entries d' = tl (entries d)"
proof -
  obtain n k v c where c: "content d = (n, k, v) # c"
    using assms(2) by (cases "content d") auto
  have "inv_data \<lparr>content = [] @ c, address = (address d)(k := None)\<rparr>"
    using assms(1) c by (intro inv_data_eraseI) simp_all
  then show ?thesis
    using assms c by (simp add: data_remove_def inv_address_empty entries_def)
qed

lemma data_remove_key_throws:
  "k \<notin> dom (address d) \<Longrightarrow> data_remove_key k d = Throws Note_not_in_binder d"
  by (auto simp: data_remove_key_def dom_def)

lemma data_remove_key_returns:
  assumes "inv_data d" "k \<in> dom (address d)"
  shows "\<exists>d'. data_remove_key k d = Returns () d' \<and> inv_data d' \<and>
           entries d' = filter (\<lambda>e. fst e \<noteq> k) (entries d)"
proof -
  obtain n where n: "address d k = Some n" using assms(2) by blast
  then obtain xs v ys where c: "content d = xs @ (n, k, v) # ys"
    using entries_split[OF assms(1)] by blast
  have d: "distinct (map fst (xs @ (n, k, v) # ys))"
       "distinct (map fst (map snd (xs @ (n, k, v) # ys)))"
    using inv_data_distinct[OF assms(1)] unfolding c by blast+
  have e: "list_erase n (content d) = Some (xs @ ys)"
    using d(1) unfolding c by (rule list_erase_split)
  have i: "inv_data \<lparr>content = xs @ ys, address = (address d)(k := None)\<rparr>"
    using assms(1) c by (rule inv_data_eraseI)
  have "\<forall>x\<in>set xs. fst (snd x) \<noteq> k" "\<forall>x\<in>set ys. fst (snd x) \<noteq> k"
    using d(2) by (auto simp: image_iff)
  then have "filter (\<lambda>x. fst (snd x) \<noteq> k) xs = xs" "filter (\<lambda>x. fst (snd x) \<noteq> k) ys = ys"
    by (simp_all only: filter_id_conv)
  then have "filter (\<lambda>e. fst e \<noteq> k) (map snd (xs @ (n, k, v) # ys)) = map snd (xs @ ys)"
    by (simp add: filter_map comp_def)
  then show ?thesis using n e i by (simp add: data_remove_key_def entries_def c)
qed

lemma data_read_throws:
  "k \<notin> dom (address d) \<Longrightarrow> data_read k d = Throws Note_not_in_binder d"
  by (auto simp: data_read_def dom_def)

lemma data_read_returns:
  assumes "inv_data d" "k \<in> dom (address d)"
  shows "\<exists>n v. data_read k d = Returns n d \<and> list_deref n (content d) = Some (k, v) \<and>
           map_of (entries d) k = Some v"
proof -
  obtain n where n: "address d k = Some n" using assms(2) by blast
  then obtain v where v: "(n, k, v) \<in> set (content d)"
    using inv_address_iff[OF assms(1)] by blast
  then have l: "list_deref n (content d) = Some (k, v)"
    using inv_data_distinct[OF assms(1)] by (simp add: list_deref_Some_iff)
  have "(k, v) \<in> set (entries d)" using v by (force simp: entries_def)
  then have "map_of (entries d) k = Some v"
    using assms(1) by (simp add: inv_data_def)
  then show ?thesis using n l by (simp add: data_read_def)
qed

lemma data_read_const_throws:
  "k \<notin> dom (address d) \<Longrightarrow> data_read_const k d = Throws Note_not_in_binder d"
  by (auto simp: data_read_const_def dom_def)

lemma data_read_const_returns:
  assumes "inv_data d" "k \<in> dom (address d)"
  shows "\<exists>v. data_read_const k d = Returns v d \<and> map_of (entries d) k = Some v"
proof -
  obtain n where n: "address d k = Some n" using assms(2) by blast
  then obtain v where v: "(n, k, v) \<in> set (content d)"
    using inv_address_iff[OF assms(1)] by blast
  then have l: "list_deref n (content d) = Some (k, v)"
    using inv_data_distinct[OF assms(1)] by (simp add: list_deref_Some_iff)
  have "(k, v) \<in> set (entries d)" using v by (force simp: entries_def)
  then have "map_of (entries d) k = Some v"
    using assms(1) by (simp add: inv_data_def)
  then show ?thesis using n l by (simp add: data_read_const_def)
qed

section \<open>Use counts and release\<close>

lemma use_count_0_iff:
  "use_count w (Some a) = 0 \<longleftrightarrow> (\<forall>y < length (binders w). data_ptr (binders w ! y) \<noteq> Some a)"
  unfolding use_count_def by (simp add: filter_empty_conv all_set_conv_all_nth)

lemma card_1_same: "card S = 1 \<Longrightarrow> x \<in> S \<Longrightarrow> y \<in> S \<Longrightarrow> x = y"
  by (auto simp: card_1_singleton_iff)

lemma use_count_1_unique:
  assumes "use_count w (Some a) = 1" "x < length (binders w)" "y < length (binders w)"
    "data_ptr (binders w ! x) = Some a" "data_ptr (binders w ! y) = Some a"
  shows "x = y"
proof -
  let ?S = "{i. i < length (binders w) \<and> data_ptr (binders w ! i) = Some a}"
  have "card ?S = 1"
    using assms(1) by (simp add: use_count_def length_filter_conv_card)
  moreover have "x \<in> ?S" "y \<in> ?S" using assms by auto
  ultimately show ?thesis by (rule card_1_same)
qed

lemma heap_release_None [simp]: "heap (release None w) = heap w"
  by (simp add: release_def)

lemma heap_release_Some:
  "heap (release (Some a) w) =
     (if \<forall>y < length (binders w). data_ptr (binders w ! y) \<noteq> Some a
      then (heap w)(a := None) else heap w)"
  unfolding release_def by (auto simp: use_count_0_iff)

lemma binders_release [simp]: "binders (release p w) = binders w"
  by (simp add: release_def split: option.splits)

lemma next_addr_release [simp]: "next_addr (release p w) = next_addr w"
  by (simp add: release_def split: option.splits)

section \<open>The step on the working pointer\<close>

lemma wf_ptr_alloc:
  "wf w \<Longrightarrow> y < length (binders w) \<Longrightarrow> data_ptr (binders w ! y) = Some a \<Longrightarrow>
   \<exists>d. heap w a = Some d \<and> a < next_addr w \<and> inv_data d \<and> content d \<noteq> []"
  unfolding wf_def by (metis not_Some_eq)

lemma wf_next_free: "wf w \<Longrightarrow> heap w (next_addr w) = None"
  unfolding wf_def by (metis less_irrefl not_Some_eq)

lemma wf_next_unowned:
  "wf w \<Longrightarrow> y < length (binders w) \<Longrightarrow> data_ptr (binders w ! y) \<noteq> Some (next_addr w)"
  using wf_ptr_alloc by (metis less_irrefl)

lemma cow_in_place_returns:
  assumes w: "wf w" and x: "x < length (binders w)"
    and a: "data_ptr (binders w ! x) = Some a" and u: "use_count w (Some a) = 1"
    and h: "heap w a = Some d" and f: "f d = Returns r d'"
  shows "\<exists>w'. cow null_ok f flag shrink x w = Returns (a, r) w' \<and> cow_post w x flag shrink a d' w'"
proof -
  have sole: "\<forall>y < length (binders w). y \<noteq> x \<longrightarrow> data_ptr (binders w ! y) \<noteq> Some a"
    using use_count_1_unique[OF u _ x _ a] by blast
  have lt: "a < next_addr w" using wf_ptr_alloc[OF w x a] by blast
  let ?w2 = "w\<lparr>heap := (heap w)(a \<mapsto> d')\<rparr>"
  show ?thesis
  proof (cases "shrink \<and> content d' = []")
    case True
    let ?w3 = "(release (Some a) ?w2)\<lparr>binders := (binders w)[x := \<lparr>data_ptr = None, read_called = flag\<rparr>]\<rparr>"
    have c: "cow null_ok f flag shrink x w = Returns (a, r) (release (Some a) ?w3)"
      using x a u h f True
      by (simp add: cow_def Let_def get_new_unique_shared_def data_size_def)
    have own: "\<exists>y < length (binders w). data_ptr (binders w ! y) = Some a"
      using x a by blast
    have h2: "heap (release (Some a) ?w2) = (heap w)(a \<mapsto> d')"
      using own by (subst heap_release_Some) auto
    have un: "\<forall>y < length (binders ?w3). data_ptr (binders ?w3 ! y) \<noteq> Some a"
      using sole x by (auto simp: nth_list_update split: if_splits)
    have h3: "heap (release (Some a) ?w3) = (heap w)(a := None)"
      using un h2 by (subst heap_release_Some) auto
    have "cow_post w x flag shrink a d' (release (Some a) ?w3)"
      unfolding cow_post_def using True lt sole a h3 by auto
    then show ?thesis using c by blast
  next
    case False
    let ?w3 = "?w2\<lparr>binders := (binders w)[x := \<lparr>data_ptr = Some a, read_called = flag\<rparr>]\<rparr>"
    have c: "cow null_ok f flag shrink x w = Returns (a, r) (release (Some a) ?w3)"
      using x a u h f False
      by (auto simp add: cow_def Let_def get_new_unique_shared_def data_size_def)
    have own: "\<exists>y < length (binders ?w3). data_ptr (binders ?w3 ! y) = Some a"
      using x by (auto intro!: exI[of _ x])
    have h3: "heap (release (Some a) ?w3) = (heap w)(a \<mapsto> d')"
      using own by (subst heap_release_Some) auto
    have "cow_post w x flag shrink a d' (release (Some a) ?w3)"
      unfolding cow_post_def using False lt sole a h3 by auto
    then show ?thesis using c by blast
  qed
qed

lemma heap_release_moved:
  assumes x: "x < length (binders w)"
    and ne: "data_ptr (binders w ! x) \<noteq> Some p"
    and b: "binders W = (binders w)[x := \<lparr>data_ptr = q, read_called = flag\<rparr>]"
    and q: "q = None \<or> q = Some p"
  shows "heap (release (data_ptr (binders w ! x)) W) a' =
       (if data_ptr (binders w ! x) = Some a' \<and>
           (\<forall>y < length (binders w). y \<noteq> x \<longrightarrow> data_ptr (binders w ! y) \<noteq> Some a')
        then None else heap W a')"
proof (cases "data_ptr (binders w ! x)")
  case None
  then show ?thesis by simp
next
  case (Some a)
  have "(\<forall>y < length (binders W). data_ptr (binders W ! y) \<noteq> Some a) \<longleftrightarrow>
        (\<forall>y < length (binders w). y \<noteq> x \<longrightarrow> data_ptr (binders w ! y) \<noteq> Some a)"
    using x q ne Some by (auto simp: b nth_list_update)
  then show ?thesis using Some by (auto simp: heap_release_Some)
qed

lemma cow_fresh_returns:
  assumes w: "wf w" and x: "x < length (binders w)"
    and nk: "data_ptr (binders w ! x) \<noteq> None \<or> null_ok"
    and g: "get_new_unique_shared (data_ptr (binders w ! x)) (use_count w (data_ptr (binders w ! x)) = 1) w =
              Some (next_addr w, w\<lparr>heap := (heap w)(next_addr w \<mapsto> d), next_addr := Suc (next_addr w)\<rparr>)"
    and f: "f d = Returns r d'"
  shows "\<exists>w'. cow null_ok f flag shrink x w = Returns (next_addr w, r) w' \<and>
           cow_post w x flag shrink (next_addr w) d' w'"
proof -
  let ?p = "next_addr w"
  let ?old = "data_ptr (binders w ! x)"
  have fresh: "\<forall>y < length (binders w). data_ptr (binders w ! y) \<noteq> Some ?p"
    using wf_next_unowned[OF w] by blast
  have ne: "?old \<noteq> Some ?p" using fresh x by blast
  have free: "heap w ?p = None" by (rule wf_next_free[OF w])
  let ?w2 = "w\<lparr>next_addr := Suc ?p, heap := (heap w)(?p \<mapsto> d')\<rparr>"
  show ?thesis
  proof (cases "shrink \<and> content d' = []")
    case True
    let ?w3 = "(release (Some ?p) ?w2)\<lparr>binders := (binders w)[x := \<lparr>data_ptr = None, read_called = flag\<rparr>]\<rparr>"
    have c: "cow null_ok f flag shrink x w = Returns (?p, r) (release ?old ?w3)"
      using x nk g f True
      by (auto simp add: cow_def Let_def data_size_def)
    have h2: "heap (release (Some ?p) ?w2) = heap w"
      using fresh free by (subst heap_release_Some) auto
    have "heap (release ?old ?w3) a' =
       (if ?old = Some a' \<and> (\<forall>y < length (binders w). y \<noteq> x \<longrightarrow> data_ptr (binders w ! y) \<noteq> Some a')
        then None else heap ?w3 a')" for a'
      by (rule heap_release_moved[OF x ne, where q="None"]) simp_all
    then have "cow_post w x flag shrink ?p d' (release ?old ?w3)"
      unfolding cow_post_def using True fresh free h2 ne by auto
    then show ?thesis using c by blast
  next
    case False
    let ?w3 = "?w2\<lparr>binders := (binders w)[x := \<lparr>data_ptr = Some ?p, read_called = flag\<rparr>]\<rparr>"
    have c: "cow null_ok f flag shrink x w = Returns (?p, r) (release ?old ?w3)"
      using x nk g f False
      by (auto simp add: cow_def Let_def data_size_def)
    have "heap (release ?old ?w3) a' =
       (if ?old = Some a' \<and> (\<forall>y < length (binders w). y \<noteq> x \<longrightarrow> data_ptr (binders w ! y) \<noteq> Some a')
        then None else heap ?w3 a')" for a'
      by (rule heap_release_moved[OF x ne, where q="Some ?p"]) simp_all
    then have "cow_post w x flag shrink ?p d' (release ?old ?w3)"
      unfolding cow_post_def using False fresh ne by auto
    then show ?thesis using c by blast
  qed
qed

lemma cow_in_place_throws:
  assumes x: "x < length (binders w)"
    and a: "data_ptr (binders w ! x) = Some a" and u: "use_count w (Some a) = 1"
    and h: "heap w a = Some d" and f: "f d = Throws e d"
  shows "cow null_ok f flag shrink x w = Throws e w"
proof -
  have "heap w = (heap w)(a \<mapsto> d)" using h by auto
  then have e: "w\<lparr>heap := (heap w)(a \<mapsto> d)\<rparr> = w" by simp
  have "release (Some a) w = w"
    using u by (simp add: release_def)
  then show ?thesis
    using x a u h f e by (simp add: cow_def Let_def get_new_unique_shared_def)
qed

lemma cow_fresh_throws:
  assumes w: "wf w" and x: "x < length (binders w)"
    and nk: "data_ptr (binders w ! x) \<noteq> None \<or> null_ok"
    and g: "get_new_unique_shared (data_ptr (binders w ! x)) (use_count w (data_ptr (binders w ! x)) = 1) w =
              Some (next_addr w, w\<lparr>heap := (heap w)(next_addr w \<mapsto> d), next_addr := Suc (next_addr w)\<rparr>)"
    and f: "f d = Throws e d"
  shows "cow null_ok f flag shrink x w = Throws e (w\<lparr>next_addr := Suc (next_addr w)\<rparr>)"
proof -
  let ?p = "next_addr w"
  let ?w2 = "w\<lparr>next_addr := Suc ?p, heap := (heap w)(?p \<mapsto> d)\<rparr>"
  have fresh: "\<forall>y < length (binders w). data_ptr (binders w ! y) \<noteq> Some ?p"
    using wf_next_unowned[OF w] by blast
  have free: "heap w ?p = None" by (rule wf_next_free[OF w])
  have "use_count ?w2 (Some ?p) = 0"
    using fresh by (simp add: use_count_0_iff)
  moreover have "(heap w)(?p := None) = heap w" using free by auto
  ultimately have "release (Some ?p) ?w2 = w\<lparr>next_addr := Suc ?p\<rparr>"
    by (simp add: release_def)
  then show ?thesis
    using x nk g f by (auto simp add: cow_def Let_def)
qed

lemma cur_None: "data_ptr (binders w ! x) = None \<Longrightarrow> cur w x = data_new"
  by (simp add: cur_def)

lemma cur_Some: "data_ptr (binders w ! x) = Some a \<Longrightarrow> heap w a = Some d \<Longrightarrow> cur w x = d"
  by (simp add: cur_def)

lemma wf_inv_cur: "wf w \<Longrightarrow> x < length (binders w) \<Longrightarrow> inv_data (cur w x)"
  using wf_ptr_alloc[of w x] inv_data_new
  by (cases "data_ptr (binders w ! x)") (auto simp: cur_def)

lemma good_at:
  "good shrink f \<Longrightarrow> inv_data d \<Longrightarrow>
   (case f d of Undefined \<Rightarrow> False | Throws e d' \<Rightarrow> d' = d
    | Returns r d' \<Rightarrow> inv_data d' \<and> (\<not> shrink \<longrightarrow> content d' \<noteq> []))"
  unfolding good_def by blast

lemma good_returns:
  "good shrink f \<Longrightarrow> inv_data d \<Longrightarrow> f d = Returns r d' \<Longrightarrow>
   inv_data d' \<and> (\<not> shrink \<longrightarrow> content d' \<noteq> [])"
  using good_at[of shrink f d] by simp

lemma good_throws: "good shrink f \<Longrightarrow> inv_data d \<Longrightarrow> f d = Throws e d' \<Longrightarrow> d' = d"
  using good_at[of shrink f d] by simp

lemma good_defined: "good shrink f \<Longrightarrow> inv_data d \<Longrightarrow> f d \<noteq> Undefined"
  using good_at[of shrink f d] by auto

lemma cow_cases:
  assumes w: "wf w" and x: "x < length (binders w)" and gd: "good shrink f"
    and nk: "data_ptr (binders w ! x) \<noteq> None \<or> null_ok"
  shows "(\<exists>e w'. f (cur w x) = Throws e (cur w x) \<and> cow null_ok f flag shrink x w = Throws e w' \<and>
            heap w' = heap w \<and> binders w' = binders w \<and> next_addr w \<le> next_addr w') \<or>
         (\<exists>r d' p w'. f (cur w x) = Returns r d' \<and> inv_data d' \<and> (\<not> shrink \<longrightarrow> content d' \<noteq> []) \<and>
            cow null_ok f flag shrink x w = Returns (p, r) w' \<and> cow_post w x flag shrink p d' w')"
proof -
  let ?d = "cur w x"
  have i: "inv_data ?d" by (rule wf_inv_cur[OF w x])
  have "(\<exists>p. (p = next_addr w \<and>
           get_new_unique_shared (data_ptr (binders w ! x)) (use_count w (data_ptr (binders w ! x)) = 1) w =
              Some (next_addr w, w\<lparr>heap := (heap w)(next_addr w \<mapsto> ?d), next_addr := Suc (next_addr w)\<rparr>)) \<or>
         (data_ptr (binders w ! x) = Some p \<and> use_count w (Some p) = 1 \<and> heap w p = Some ?d))"
  proof (cases "data_ptr (binders w ! x)")
    case None
    then show ?thesis by (simp add: get_new_unique_shared_def make_shared_def cur_None)
  next
    case (Some a)
    then obtain d where d: "heap w a = Some d" using wf_ptr_alloc[OF w x] by blast
    then have c: "?d = d" using Some by (simp add: cur_Some)
    have "data_copy d = d" using i c by (simp add: data_copy_inv)
    then show ?thesis
      using Some d c by (cases "use_count w (Some a) = 1") (auto simp: get_new_unique_shared_def make_shared_def)
  qed
  then consider (fresh) "get_new_unique_shared (data_ptr (binders w ! x)) (use_count w (data_ptr (binders w ! x)) = 1) w =
              Some (next_addr w, w\<lparr>heap := (heap w)(next_addr w \<mapsto> ?d), next_addr := Suc (next_addr w)\<rparr>)"
    | (in_place) p where "data_ptr (binders w ! x) = Some p" "use_count w (Some p) = 1" "heap w p = Some ?d"
    by blast
  then show ?thesis
  proof cases
    case fresh
    show ?thesis
    proof (cases "f ?d")
      case (Returns r d')
      then have "inv_data d' \<and> (\<not> shrink \<longrightarrow> content d' \<noteq> [])"
        using good_returns[OF gd i] by blast
      then show ?thesis
        using cow_fresh_returns[where f=f and d="?d" and flag=flag and shrink=shrink, OF w x nk fresh Returns] Returns by blast
    next
      case (Throws e d')
      then have t: "f ?d = Throws e ?d"
        using good_throws[OF gd i] by simp
      show ?thesis
        using cow_fresh_throws[where f=f and d="?d" and flag=flag and shrink=shrink, OF w x nk fresh t] t by auto
    next
      case Undefined
      then show ?thesis using good_defined[OF gd i] by simp
    qed
  next
    case in_place
    show ?thesis
    proof (cases "f ?d")
      case (Returns r d')
      then have "inv_data d' \<and> (\<not> shrink \<longrightarrow> content d' \<noteq> [])"
        using good_returns[OF gd i] by blast
      then show ?thesis
        using cow_in_place_returns[where f=f and d="?d" and flag=flag and shrink=shrink and null_ok=null_ok, OF w x in_place Returns] Returns by blast
    next
      case (Throws e d')
      then have t: "f ?d = Throws e ?d"
        using good_throws[OF gd i] by simp
      show ?thesis
        using cow_in_place_throws[where f=f and d="?d" and flag=flag and shrink=shrink and null_ok=null_ok, OF x in_place t] t by auto
    next
      case Undefined
      then show ?thesis using good_defined[OF gd i] by simp
    qed
  qed
qed

lemma cow_post_other:
  assumes p: "cow_post w x flag shrink p d' w'" and x: "x < length (binders w)"
    and y: "y < length (binders w)" "y \<noteq> x"
  shows "binders w' ! y = binders w ! y"
    and "data_ptr (binders w ! y) = Some a \<Longrightarrow> a \<noteq> p \<and> heap w' a = heap w a"
proof -
  show b: "binders w' ! y = binders w ! y"
    using p y unfolding cow_post_def by simp
  assume a: "data_ptr (binders w ! y) = Some a"
  have ne: "a \<noteq> p" using p y a unfolding cow_post_def by blast
  have "heap w' a = (if a = p then (if shrink \<and> content d' = [] then None else Some d')
         else if data_ptr (binders w ! x) = Some a \<and>
                 (\<forall>y < length (binders w). y \<noteq> x \<longrightarrow> data_ptr (binders w ! y) \<noteq> Some a)
              then None
         else heap w a)"
    using p unfolding cow_post_def by blast
  then have "heap w' a = heap w a" using ne y a by auto
  then show "a \<noteq> p \<and> heap w' a = heap w a" using ne by simp
qed

lemma cow_post_self:
  assumes p: "cow_post w x flag shrink p d' w'" and x: "x < length (binders w)"
  shows "binders w' ! x = \<lparr>data_ptr = (if shrink \<and> content d' = [] then None else Some p), read_called = flag\<rparr>"
    and "heap w' p = (if shrink \<and> content d' = [] then None else Some d')"
    and "length (binders w') = length (binders w)"
  using p x unfolding cow_post_def by simp_all

lemma cow_post_frame:
  assumes p: "cow_post w x flag shrink p d' w'" and x: "x < length (binders w)"
    and y: "y < length (binders w)" "y \<noteq> x"
  shows "entries_of w' y = entries_of w y"
proof (cases "data_ptr (binders w ! y)")
  case None
  then show ?thesis
    using cow_post_other(1)[OF p x y] cow_post_self(3)[OF p x] y by (simp add: entries_of_def)
next
  case (Some a)
  then show ?thesis
    using cow_post_other[OF p x y] cow_post_self(3)[OF p x] y by (simp add: entries_of_def)
qed

lemma cow_post_own:
  assumes p: "cow_post w x flag shrink p d' w'" and x: "x < length (binders w)"
  shows "entries_of w' x = entries d'"
  using cow_post_self[OF p x] x by (simp add: entries_of_def entries_def)

lemma cow_post_wf:
  assumes w: "wf w" and x: "x < length (binders w)" and p: "cow_post w x flag shrink p d' w'"
    and i: "inv_data d'" and n: "\<not> shrink \<longrightarrow> content d' \<noteq> []"
  shows "wf w'"
proof -
  have len: "length (binders w') = length (binders w)" by (rule cow_post_self(3)[OF p x])
  have hp: "heap w' a' =
        (if a' = p then (if shrink \<and> content d' = [] then None else Some d')
         else if data_ptr (binders w ! x) = Some a' \<and>
                 (\<forall>y < length (binders w). y \<noteq> x \<longrightarrow> data_ptr (binders w ! y) \<noteq> Some a')
              then None
         else heap w a')" for a'
    using p unfolding cow_post_def by blast
  have lt: "next_addr w \<le> next_addr w'" "p < next_addr w'"
    using p unfolding cow_post_def by blast+
  have un: "\<forall>y < length (binders w). y \<noteq> x \<longrightarrow> data_ptr (binders w ! y) \<noteq> Some p"
    using p unfolding cow_post_def by blast
  have 1: "a < next_addr w' \<and> inv_data d \<and> content d \<noteq> []" if h: "heap w' a = Some d" for a d
  proof (cases "a = p")
    case True
    then show ?thesis using h hp[of a] lt i n by (auto split: if_splits)
  next
    case False
    then have "heap w a = Some d" using h hp[of a] by (auto split: if_splits)
    then have "a < next_addr w \<and> inv_data d \<and> content d \<noteq> []"
      using w unfolding wf_def by blast
    then show ?thesis using lt by auto
  qed
  have 2: "heap w' a \<noteq> None \<and>
        (read_called (binders w' ! y) \<longrightarrow>
           (\<forall>z < length (binders w'). data_ptr (binders w' ! z) = Some a \<longrightarrow> z = y))"
    if y: "y < length (binders w')" and a: "data_ptr (binders w' ! y) = Some a" for y a
  proof (cases "y = x")
    case True
    then have ap: "a = p" "\<not> (shrink \<and> content d' = [])"
      using a cow_post_self(1)[OF p x] by (auto split: if_splits)
    then have "heap w' a \<noteq> None" using hp[of p] by simp
    moreover have "z = y" if "z < length (binders w')" "data_ptr (binders w' ! z) = Some a" for z
      using that cow_post_other(1)[OF p x, of z] un ap True len by (cases "z = x") auto
    ultimately show ?thesis by blast
  next
    case False
    have yl: "y < length (binders w)" using y len by simp
    have b: "binders w' ! y = binders w ! y" by (rule cow_post_other(1)[OF p x yl False])
    then have a': "data_ptr (binders w ! y) = Some a" using a by simp
    have ne: "a \<noteq> p" "heap w' a = heap w a"
      using cow_post_other(2)[OF p x yl False a'] by blast+
    have old: "heap w a \<noteq> None \<and>
        (read_called (binders w ! y) \<longrightarrow>
           (\<forall>z < length (binders w). data_ptr (binders w ! z) = Some a \<longrightarrow> z = y))"
      using w yl a' unfolding wf_def by blast
    have "z = y" if f: "read_called (binders w ! y)" and z: "z < length (binders w')" "data_ptr (binders w' ! z) = Some a" for z
    proof (cases "z = x")
      case True
      then show ?thesis using z cow_post_self(1)[OF p x] ne by (auto split: if_splits)
    next
      case False
      then have "binders w' ! z = binders w ! z"
        using cow_post_other(1)[OF p x, of z] z len by simp
      then show ?thesis using old f z len by simp
    qed
    then show ?thesis using old ne b by auto
  qed
  show ?thesis
    unfolding wf_def
  proof (rule conjI)
    show "\<forall>a d. heap w' a = Some d \<longrightarrow> a < next_addr w' \<and> inv_data d \<and> content d \<noteq> []"
      using 1 by blast
  next
    show "\<forall>y<length (binders w'). \<forall>a. data_ptr (binders w' ! y) = Some a \<longrightarrow>
        heap w' a \<noteq> None \<and>
        (read_called (binders w' ! y) \<longrightarrow>
           (\<forall>z < length (binders w'). data_ptr (binders w' ! z) = Some a \<longrightarrow> z = y))"
      using 2 by (intro allI impI)
  qed
qed

lemma wf_same:
  assumes "wf w" "heap w' = heap w" "binders w' = binders w" "next_addr w \<le> next_addr w'"
  shows "wf w'"
proof -
  have "a < next_addr w'" if "a < next_addr w" for a
    using that assms(4) by simp
  then show ?thesis
    using assms(1) unfolding wf_def assms(2,3) by blast
qed

section \<open>The members of an instance keep the invariant\<close>

lemma good_insert_front: "good False (data_insert_front k v)"
  unfolding good_def
proof (intro allI impI)
  fix d :: "('a, 'b) binder_data" assume i: "inv_data d"
  show "case data_insert_front k v d of Undefined \<Rightarrow> False | Throws e d' \<Rightarrow> d' = d
        | Returns r d' \<Rightarrow> inv_data d' \<and> (\<not> False \<longrightarrow> content d' \<noteq> [])"
  proof (cases "k \<in> dom (address d)")
    case True
    then show ?thesis by (simp add: data_insert_front_throws)
  next
    case False
    then obtain d' where "data_insert_front k v d = Returns () d'" "inv_data d'" "entries d' = (k, v) # entries d"
      using data_insert_front_returns[OF i] by blast
    then show ?thesis by (auto simp: entries_def)
  qed
qed

lemma good_insert_after: "good False (data_insert_after pk k v)"
  unfolding good_def
proof (intro allI impI)
  fix d :: "('a, 'b) binder_data" assume i: "inv_data d"
  show "case data_insert_after pk k v d of Undefined \<Rightarrow> False | Throws e d' \<Rightarrow> d' = d
        | Returns r d' \<Rightarrow> inv_data d' \<and> (\<not> False \<longrightarrow> content d' \<noteq> [])"
  proof (cases "k \<in> dom (address d)")
    case True
    then show ?thesis by (simp add: data_insert_after_throws_dup)
  next
    case False
    show ?thesis
    proof (cases "pk \<in> dom (address d)")
      case True
      then obtain d' xs pv ys where "data_insert_after pk k v d = Returns () d'" "inv_data d'"
        "entries d' = xs @ (pk, pv) # (k, v) # ys"
        using data_insert_after_returns[OF i False] by blast
      then show ?thesis by (auto simp: entries_def)
    next
      case np: False
      then show ?thesis using False by (simp add: data_insert_after_throws_prev)
    qed
  qed
qed

lemma good_remove: "good True data_remove"
  unfolding good_def
proof (intro allI impI)
  fix d :: "('a, 'b) binder_data" assume i: "inv_data d"
  show "case data_remove d of Undefined \<Rightarrow> False | Throws e d' \<Rightarrow> d' = d
        | Returns r d' \<Rightarrow> inv_data d' \<and> (\<not> True \<longrightarrow> content d' \<noteq> [])"
  proof (cases "content d = []")
    case True
    then show ?thesis using i by (simp add: data_remove_throws)
  next
    case False
    then obtain d' where "data_remove d = Returns () d'" "inv_data d'"
      using data_remove_returns[OF i] by blast
    then show ?thesis by simp
  qed
qed

lemma good_remove_key: "good True (data_remove_key k)"
  unfolding good_def
proof (intro allI impI)
  fix d :: "('a, 'b) binder_data" assume i: "inv_data d"
  show "case data_remove_key k d of Undefined \<Rightarrow> False | Throws e d' \<Rightarrow> d' = d
        | Returns r d' \<Rightarrow> inv_data d' \<and> (\<not> True \<longrightarrow> content d' \<noteq> [])"
  proof (cases "k \<in> dom (address d)")
    case False
    then show ?thesis by (simp add: data_remove_key_throws)
  next
    case True
    then obtain d' where "data_remove_key k d = Returns () d'" "inv_data d'"
      using data_remove_key_returns[OF i] by blast
    then show ?thesis by simp
  qed
qed

lemma good_read: "good False (data_read k)"
  unfolding good_def
proof (intro allI impI)
  fix d :: "('a, 'b) binder_data" assume i: "inv_data d"
  show "case data_read k d of Undefined \<Rightarrow> False | Throws e d' \<Rightarrow> d' = d
        | Returns r d' \<Rightarrow> inv_data d' \<and> (\<not> False \<longrightarrow> content d' \<noteq> [])"
  proof (cases "k \<in> dom (address d)")
    case False
    then show ?thesis by (simp add: data_read_throws)
  next
    case True
    then obtain n v where "data_read k d = Returns n d" "list_deref n (content d) = Some (k, v)"
      using data_read_returns[OF i] by blast
    then show ?thesis using i by auto
  qed
qed

lemma wf_entries_cur: "wf w \<Longrightarrow> x < length (binders w) \<Longrightarrow> entries (cur w x) = entries_of w x"
  using wf_ptr_alloc[of w x]
  by (cases "data_ptr (binders w ! x)") (auto simp: cur_def entries_of_def data_new_def entries_def)

lemma wf_keys_cur:
  "wf w \<Longrightarrow> x < length (binders w) \<Longrightarrow> dom (address (cur w x)) = fst ` set (entries_of w x)"
  using inv_dom_address[OF wf_inv_cur] wf_entries_cur by metis

lemma wf_null_iff:
  "wf w \<Longrightarrow> x < length (binders w) \<Longrightarrow> data_ptr (binders w ! x) = None \<longleftrightarrow> entries_of w x = []"
  using wf_ptr_alloc[of w x]
  by (cases "data_ptr (binders w ! x)") (auto simp: entries_of_def entries_def)

lemma cow_null_throws:
  "x < length (binders w) \<Longrightarrow> data_ptr (binders w ! x) = None \<Longrightarrow>
   cow False f flag shrink x w = Throws Binder_is_empty w"
  by (simp add: cow_def)

lemma cow_throws:
  assumes w: "wf w" and x: "x < length (binders w)" and gd: "good shrink f"
    and nk: "data_ptr (binders w ! x) \<noteq> None \<or> null_ok"
    and f: "f (cur w x) = Throws e d"
  shows "\<exists>w'. cow null_ok f flag shrink x w = Throws e w' \<and> heap w' = heap w \<and>
           binders w' = binders w \<and> wf w'"
  using cow_cases[where f=f and flag=flag, OF w x gd nk] f wf_same[OF w] by auto

lemma cow_returns:
  assumes w: "wf w" and x: "x < length (binders w)" and gd: "good shrink f"
    and nk: "data_ptr (binders w ! x) \<noteq> None \<or> null_ok"
    and f: "f (cur w x) = Returns r d'"
  shows "\<exists>p w'. cow null_ok f flag shrink x w = Returns (p, r) w' \<and> wf w' \<and>
           cow_post w x flag shrink p d' w'"
proof -
  obtain p w' where c: "cow null_ok f flag shrink x w = Returns (p, r) w'"
    and i: "inv_data d'" "\<not> shrink \<longrightarrow> content d' \<noteq> []"
    and p: "cow_post w x flag shrink p d' w'"
    using cow_cases[where f=f and flag=flag, OF w x gd nk] f by auto
  have "wf w'" using w x p i by (rule cow_post_wf)
  then show ?thesis using c p by blast
qed

section \<open>The mutating members of a handle\<close>

lemma insert_front_cow:
  "binder_insert_front x k v w = map_result (\<lambda>_. ()) (cow True (data_insert_front k v) False False x w)"
  unfolding binder_insert_front_def cow_def Let_def
  by (auto split: option.splits outcome.splits prod.splits)

lemma insert_after_cow:
  "binder_insert_after x pk k v w = map_result (\<lambda>_. ()) (cow False (data_insert_after pk k v) False False x w)"
  unfolding binder_insert_after_def cow_def Let_def
  by (auto split: option.splits outcome.splits prod.splits)

lemma remove_cow:
  "binder_remove x w = map_result (\<lambda>_. ()) (cow False data_remove False True x w)"
  unfolding binder_remove_def cow_def Let_def
  by (auto split: option.splits outcome.splits prod.splits)

lemma remove_key_cow:
  "binder_remove_key x k w = map_result (\<lambda>_. ()) (cow False (data_remove_key k) False True x w)"
  unfolding binder_remove_key_def cow_def Let_def
  by (auto split: option.splits outcome.splits prod.splits)

lemma read_cow:
  "binder_read x k w = map_result (\<lambda>(p, n). Ref p n) (cow False (data_read k) True False x w)"
  unfolding binder_read_def cow_def Let_def
  by (auto split: option.splits outcome.splits prod.splits)

lemma cow_post_frame_all:
  assumes p: "cow_post w x flag shrink p d' w'" and x: "x < length (binders w)"
  shows "length (binders w') = length (binders w) \<and> entries_of w' x = entries d' \<and>
         (\<forall>y. y \<noteq> x \<longrightarrow> entries_of w' y = entries_of w y)"
proof -
  have l: "length (binders w') = length (binders w)" by (rule cow_post_self(3)[OF p x])
  have "entries_of w' y = entries_of w y" if "y \<noteq> x" for y
  proof (cases "y < length (binders w)")
    case True
    then show ?thesis using cow_post_frame[OF p x True that] by simp
  next
    case False
    then show ?thesis using l by (simp add: entries_of_def)
  qed
  then show ?thesis using l cow_post_own[OF p x] by blast
qed

lemma same_entries_of: "heap w' = heap w \<Longrightarrow> binders w' = binders w \<Longrightarrow> entries_of w' y = entries_of w y"
  by (simp add: entries_of_def split: option.splits)

lemma binder_insert_front_throws:
  assumes w: "wf w" and x: "x < length (binders w)" and k: "k \<in> fst ` set (entries_of w x)"
  shows "\<exists>w'. binder_insert_front x k v w = Throws Already_contains_key w' \<and> heap w' = heap w \<and>
           binders w' = binders w \<and> wf w'"
proof -
  have "data_insert_front k v (cur w x) = Throws Already_contains_key (cur w x)"
    using k wf_keys_cur[OF w x] by (simp add: data_insert_front_throws)
  then show ?thesis
    using cow_throws[where f="data_insert_front k v" and null_ok=True and flag=False, OF w x good_insert_front]
    by (fastforce simp: insert_front_cow)
qed

lemma binder_insert_front_returns:
  assumes w: "wf w" and x: "x < length (binders w)" and k: "k \<notin> fst ` set (entries_of w x)"
  shows "\<exists>w'. binder_insert_front x k v w = Returns () w' \<and> wf w' \<and>
           length (binders w') = length (binders w) \<and>
           entries_of w' x = (k, v) # entries_of w x \<and>
           (\<forall>y. y \<noteq> x \<longrightarrow> entries_of w' y = entries_of w y)"
proof -
  obtain d' where d: "data_insert_front k v (cur w x) = Returns () d'" "entries d' = (k, v) # entries_of w x"
    using data_insert_front_returns[OF wf_inv_cur[OF w x], of k v] k wf_keys_cur[OF w x] wf_entries_cur[OF w x]
    by auto
  obtain p w' where c: "cow True (data_insert_front k v) False False x w = Returns (p, ()) w'" "wf w'"
    "cow_post w x False False p d' w'"
    using cow_returns[where f="data_insert_front k v" and null_ok=True and flag=False, OF w x good_insert_front _ d(1)]
    by auto
  show ?thesis
    using c(1,2) cow_post_frame_all[OF c(3) x] d(2) by (simp add: insert_front_cow)
qed

lemma binder_insert_after_empty:
  assumes w: "wf w" and x: "x < length (binders w)" and e: "entries_of w x = []"
  shows "binder_insert_after x pk k v w = Throws Binder_is_empty w"
  using wf_null_iff[OF w x] e x by (simp add: insert_after_cow cow_null_throws)

lemma binder_insert_after_dup:
  assumes w: "wf w" and x: "x < length (binders w)" and k: "k \<in> fst ` set (entries_of w x)"
  shows "\<exists>w'. binder_insert_after x pk k v w = Throws Already_contains_key w' \<and> heap w' = heap w \<and>
           binders w' = binders w \<and> wf w'"
proof -
  have n: "data_ptr (binders w ! x) \<noteq> None" using wf_null_iff[OF w x] k by auto
  have "data_insert_after pk k v (cur w x) = Throws Already_contains_key (cur w x)"
    using k wf_keys_cur[OF w x] by (simp add: data_insert_after_throws_dup)
  then show ?thesis
    using cow_throws[where f="data_insert_after pk k v" and null_ok=False and flag=False, OF w x good_insert_after] n
    by (fastforce simp: insert_after_cow)
qed

lemma binder_insert_after_no_prev:
  assumes w: "wf w" and x: "x < length (binders w)" and e: "entries_of w x \<noteq> []"
    and k: "k \<notin> fst ` set (entries_of w x)" and pk: "pk \<notin> fst ` set (entries_of w x)"
  shows "\<exists>w'. binder_insert_after x pk k v w = Throws No_previous_entry w' \<and> heap w' = heap w \<and>
           binders w' = binders w \<and> wf w'"
proof -
  have n: "data_ptr (binders w ! x) \<noteq> None" using wf_null_iff[OF w x] e by auto
  have "data_insert_after pk k v (cur w x) = Throws No_previous_entry (cur w x)"
    using k pk wf_keys_cur[OF w x] by (simp add: data_insert_after_throws_prev)
  then show ?thesis
    using cow_throws[where f="data_insert_after pk k v" and null_ok=False and flag=False, OF w x good_insert_after] n
    by (fastforce simp: insert_after_cow)
qed

lemma binder_insert_after_returns:
  assumes w: "wf w" and x: "x < length (binders w)"
    and k: "k \<notin> fst ` set (entries_of w x)" and pk: "pk \<in> fst ` set (entries_of w x)"
  shows "\<exists>w' xs pv ys. binder_insert_after x pk k v w = Returns () w' \<and> wf w' \<and>
           length (binders w') = length (binders w) \<and>
           entries_of w x = xs @ (pk, pv) # ys \<and>
           entries_of w' x = xs @ (pk, pv) # (k, v) # ys \<and>
           (\<forall>y. y \<noteq> x \<longrightarrow> entries_of w' y = entries_of w y)"
proof -
  have n: "data_ptr (binders w ! x) \<noteq> None" using wf_null_iff[OF w x] pk by auto
  obtain d' xs pv ys where d: "data_insert_after pk k v (cur w x) = Returns () d'"
    "entries_of w x = xs @ (pk, pv) # ys" "entries d' = xs @ (pk, pv) # (k, v) # ys"
    using data_insert_after_returns[OF wf_inv_cur[OF w x], of k pk v] k pk wf_keys_cur[OF w x] wf_entries_cur[OF w x]
    by auto
  obtain p w' where c: "cow False (data_insert_after pk k v) False False x w = Returns (p, ()) w'" "wf w'"
    "cow_post w x False False p d' w'"
    using cow_returns[where f="data_insert_after pk k v" and null_ok=False and flag=False, OF w x good_insert_after _ d(1)] n
    by auto
  have "binder_insert_after x pk k v w = Returns () w'" using c(1) by (simp add: insert_after_cow)
  then show ?thesis
    using c(2) cow_post_frame_all[OF c(3) x] d(2,3) by auto
qed

lemma binder_remove_empty:
  assumes w: "wf w" and x: "x < length (binders w)" and e: "entries_of w x = []"
  shows "binder_remove x w = Throws Binder_is_empty w"
  using wf_null_iff[OF w x] e x by (simp add: remove_cow cow_null_throws)


lemma binder_remove_key_empty:
  assumes w: "wf w" and x: "x < length (binders w)" and e: "entries_of w x = []"
  shows "binder_remove_key x k w = Throws Binder_is_empty w"
  using wf_null_iff[OF w x] e x by (simp add: remove_key_cow cow_null_throws)

lemma binder_remove_key_missing:
  assumes w: "wf w" and x: "x < length (binders w)" and e: "entries_of w x \<noteq> []"
    and k: "k \<notin> fst ` set (entries_of w x)"
  shows "\<exists>w'. binder_remove_key x k w = Throws Note_not_in_binder w' \<and> heap w' = heap w \<and>
           binders w' = binders w \<and> wf w'"
proof -
  have n: "data_ptr (binders w ! x) \<noteq> None" using wf_null_iff[OF w x] e by auto
  have "data_remove_key k (cur w x) = Throws Note_not_in_binder (cur w x)"
    using k wf_keys_cur[OF w x] by (simp add: data_remove_key_throws)
  then show ?thesis
    using cow_throws[where f="data_remove_key k" and null_ok=False and flag=False, OF w x good_remove_key] n
    by (fastforce simp: remove_key_cow)
qed

lemma binder_remove_key_returns:
  assumes w: "wf w" and x: "x < length (binders w)" and k: "k \<in> fst ` set (entries_of w x)"
  shows "\<exists>w'. binder_remove_key x k w = Returns () w' \<and> wf w' \<and>
           length (binders w') = length (binders w) \<and>
           entries_of w' x = filter (\<lambda>e. fst e \<noteq> k) (entries_of w x) \<and>
           (\<forall>y. y \<noteq> x \<longrightarrow> entries_of w' y = entries_of w y)"
proof -
  have n: "data_ptr (binders w ! x) \<noteq> None" using wf_null_iff[OF w x] k by auto
  obtain d' where d: "data_remove_key k (cur w x) = Returns () d'"
    "entries d' = filter (\<lambda>e. fst e \<noteq> k) (entries_of w x)"
    using data_remove_key_returns[OF wf_inv_cur[OF w x], of k] k wf_keys_cur[OF w x] wf_entries_cur[OF w x]
    by auto
  obtain p w' where c: "cow False (data_remove_key k) False True x w = Returns (p, ()) w'" "wf w'"
    "cow_post w x False True p d' w'"
    using cow_returns[where f="data_remove_key k" and null_ok=False and flag=False, OF w x good_remove_key _ d(1)] n
    by auto
  have "binder_remove_key x k w = Returns () w'" using c(1) by (simp add: remove_key_cow)
  then show ?thesis
    using c(2) cow_post_frame_all[OF c(3) x] d(2) by auto
qed

section \<open>Every reachable state satisfies the invariant\<close>

lemma wfI:
  assumes "\<And>a d. heap w a = Some d \<Longrightarrow> a < next_addr w \<and> inv_data d \<and> content d \<noteq> []"
    and "\<And>x a. x < length (binders w) \<Longrightarrow> data_ptr (binders w ! x) = Some a \<Longrightarrow> heap w a \<noteq> None"
    and "\<And>x y a. x < length (binders w) \<Longrightarrow> y < length (binders w) \<Longrightarrow>
           data_ptr (binders w ! x) = Some a \<Longrightarrow> read_called (binders w ! x) \<Longrightarrow>
           data_ptr (binders w ! y) = Some a \<Longrightarrow> y = x"
  shows "wf w"
  unfolding wf_def using assms by blast

lemma wf_cell: "wf w \<Longrightarrow> heap w a = Some d \<Longrightarrow> a < next_addr w \<and> inv_data d \<and> content d \<noteq> []"
  unfolding wf_def by blast

lemma wf_ptr:
  "wf w \<Longrightarrow> x < length (binders w) \<Longrightarrow> data_ptr (binders w ! x) = Some a \<Longrightarrow> heap w a \<noteq> None"
  unfolding wf_def by blast

lemma wf_sole:
  "wf w \<Longrightarrow> x < length (binders w) \<Longrightarrow> y < length (binders w) \<Longrightarrow>
   data_ptr (binders w ! x) = Some a \<Longrightarrow> read_called (binders w ! x) \<Longrightarrow>
   data_ptr (binders w ! y) = Some a \<Longrightarrow> y = x"
  unfolding wf_def by blast

lemma release_cases:
  "release p w = w \<or>
   (\<exists>a. p = Some a \<and> (\<forall>y < length (binders w). data_ptr (binders w ! y) \<noteq> Some a) \<and>
        release p w = w\<lparr>heap := (heap w)(a := None)\<rparr>)"
proof (cases p)
  case None
  then show ?thesis by (simp add: release_def)
next
  case (Some a)
  then show ?thesis
    by (cases "\<forall>y < length (binders w). data_ptr (binders w ! y) \<noteq> Some a")
       (simp_all add: release_def use_count_0_iff)
qed

lemma wf_release:
  assumes w: "wf w"
  shows "wf (release p w)"
proof -
  consider "release p w = w"
    | a where "\<forall>y < length (binders w). data_ptr (binders w ! y) \<noteq> Some a"
        "release p w = w\<lparr>heap := (heap w)(a := None)\<rparr>"
    using release_cases[of p w] by blast
  then show ?thesis
  proof cases
    case 1
    then show ?thesis using w by simp
  next
    case 2
    show ?thesis
      unfolding 2(2)
    proof (rule wfI)
      fix b d assume "heap (w\<lparr>heap := (heap w)(a := None)\<rparr>) b = Some d"
      then have "heap w b = Some d" by (simp split: if_splits)
      then show "b < next_addr (w\<lparr>heap := (heap w)(a := None)\<rparr>) \<and> inv_data d \<and> content d \<noteq> []"
        using wf_cell[OF w] by simp
    next
      fix x b assume "x < length (binders (w\<lparr>heap := (heap w)(a := None)\<rparr>))"
        "data_ptr (binders (w\<lparr>heap := (heap w)(a := None)\<rparr>) ! x) = Some b"
      then have "x < length (binders w)" "data_ptr (binders w ! x) = Some b" by simp_all
      then have "heap w b \<noteq> None" "b \<noteq> a" using wf_ptr[OF w] 2(1) by auto
      then show "heap (w\<lparr>heap := (heap w)(a := None)\<rparr>) b \<noteq> None" by simp
    next
      fix x y b
      assume "x < length (binders (w\<lparr>heap := (heap w)(a := None)\<rparr>))"
        "y < length (binders (w\<lparr>heap := (heap w)(a := None)\<rparr>))"
        "data_ptr (binders (w\<lparr>heap := (heap w)(a := None)\<rparr>) ! x) = Some b"
        "read_called (binders (w\<lparr>heap := (heap w)(a := None)\<rparr>) ! x)"
        "data_ptr (binders (w\<lparr>heap := (heap w)(a := None)\<rparr>) ! y) = Some b"
      then show "y = x" using wf_sole[OF w, of x y b] by simp
    qed
  qed
qed

lemma entries_of_release [simp]: "entries_of (release p w) y = entries_of w y"
proof -
  consider "release p w = w"
    | a where "\<forall>y < length (binders w). data_ptr (binders w ! y) \<noteq> Some a"
        "release p w = w\<lparr>heap := (heap w)(a := None)\<rparr>"
    using release_cases[of p w] by blast
  then show ?thesis
  proof cases
    case 1
    then show ?thesis by simp
  next
    case 2
    show ?thesis
    proof (cases "y < length (binders w)")
      case True
      then have "data_ptr (binders w ! y) \<noteq> Some a" using 2(1) by blast
      then show ?thesis unfolding 2(2) entries_of_def by (simp split: option.splits)
    next
      case False
      then show ?thesis unfolding 2(2) entries_of_def by simp
    qed
  qed
qed

lemma wf_alloc:
  assumes w: "wf w" and i: "inv_data d" and n: "content d \<noteq> []"
  shows "wf (snd (make_shared d w))"
proof (rule wfI)
  fix a da assume "heap (snd (make_shared d w)) a = Some da"
  then have "(a = next_addr w \<and> da = d) \<or> heap w a = Some da"
    by (simp add: make_shared_def split: if_splits)
  then show "a < next_addr (snd (make_shared d w)) \<and> inv_data da \<and> content da \<noteq> []"
    using wf_cell[OF w, of a da] i n by (auto simp: make_shared_def)
next
  fix x a assume "x < length (binders (snd (make_shared d w)))"
    "data_ptr (binders (snd (make_shared d w)) ! x) = Some a"
  then have "x < length (binders w)" "data_ptr (binders w ! x) = Some a"
    by (simp_all add: make_shared_def)
  then have "heap w a \<noteq> None" using wf_ptr[OF w] by blast
  then show "heap (snd (make_shared d w)) a \<noteq> None" by (simp add: make_shared_def)
next
  fix x y a
  assume "x < length (binders (snd (make_shared d w)))" "y < length (binders (snd (make_shared d w)))"
    "data_ptr (binders (snd (make_shared d w)) ! x) = Some a"
    "read_called (binders (snd (make_shared d w)) ! x)"
    "data_ptr (binders (snd (make_shared d w)) ! y) = Some a"
  then show "y = x" using wf_sole[OF w, of x y a] by (simp add: make_shared_def)
qed

lemma wf_update_binder:
  assumes w: "wf w" and x: "x < length (binders w)"
    and q: "\<And>a. q = Some a \<Longrightarrow> heap w a \<noteq> None"
    and s: "\<And>a y. q = Some a \<Longrightarrow> y < length (binders w) \<Longrightarrow> y \<noteq> x \<Longrightarrow>
              data_ptr (binders w ! y) = Some a \<Longrightarrow> \<not> fl \<and> \<not> read_called (binders w ! y)"
  shows "wf (w\<lparr>binders := (binders w)[x := \<lparr>data_ptr = q, read_called = fl\<rparr>]\<rparr>)"
    (is "wf ?w")
proof (rule wfI)
  fix a d assume "heap ?w a = Some d"
  then show "a < next_addr ?w \<and> inv_data d \<and> content d \<noteq> []"
    using wf_cell[OF w, of a d] by simp
next
  fix z a assume z: "z < length (binders ?w)" "data_ptr (binders ?w ! z) = Some a"
  show "heap ?w a \<noteq> None"
  proof (cases "z = x")
    case True
    then show ?thesis using z x q by simp
  next
    case False
    then show ?thesis using z wf_ptr[OF w, of z a] by simp
  qed
next
  fix z y a
  assume z: "z < length (binders ?w)" "data_ptr (binders ?w ! z) = Some a" "read_called (binders ?w ! z)"
    and y: "y < length (binders ?w)" "data_ptr (binders ?w ! y) = Some a"
  show "y = z"
  proof (cases "z = x")
    case zx: True
    show ?thesis
    proof (cases "y = x")
      case True
      then show ?thesis using zx by simp
    next
      case False
      then show ?thesis using z y zx x s[of a y] by simp
    qed
  next
    case zx: False
    show ?thesis
    proof (cases "y = x")
      case True
      then show ?thesis using z y zx x s[of a z] by simp
    next
      case False
      then show ?thesis using z y zx wf_sole[OF w, of z y a] by simp
    qed
  qed
qed

lemma wf_append_binder:
  assumes w: "wf w"
    and q: "\<And>a. q = Some a \<Longrightarrow> heap w a \<noteq> None"
    and s: "\<And>a y. q = Some a \<Longrightarrow> y < length (binders w) \<Longrightarrow>
              data_ptr (binders w ! y) = Some a \<Longrightarrow> \<not> fl \<and> \<not> read_called (binders w ! y)"
  shows "wf (w\<lparr>binders := binders w @ [\<lparr>data_ptr = q, read_called = fl\<rparr>]\<rparr>)"
    (is "wf ?w")
proof (rule wfI)
  fix a d assume "heap ?w a = Some d"
  then show "a < next_addr ?w \<and> inv_data d \<and> content d \<noteq> []"
    using wf_cell[OF w, of a d] by simp
next
  fix z a assume z: "z < length (binders ?w)" "data_ptr (binders ?w ! z) = Some a"
  show "heap ?w a \<noteq> None"
  proof (cases "z = length (binders w)")
    case True
    then show ?thesis using z q by simp
  next
    case False
    then show ?thesis using z wf_ptr[OF w, of z a] by (simp add: nth_append)
  qed
next
  fix z y a
  assume z: "z < length (binders ?w)" "data_ptr (binders ?w ! z) = Some a" "read_called (binders ?w ! z)"
    and y: "y < length (binders ?w)" "data_ptr (binders ?w ! y) = Some a"
  show "y = z"
  proof (cases "z = length (binders w)")
    case zx: True
    show ?thesis
    proof (cases "y = length (binders w)")
      case True
      then show ?thesis using zx by simp
    next
      case False
      then show ?thesis using z y zx s[of a y] by (simp add: nth_append)
    qed
  next
    case zx: False
    show ?thesis
    proof (cases "y = length (binders w)")
      case True
      then show ?thesis using z y zx s[of a z] by (simp add: nth_append)
    next
      case False
      then show ?thesis using z y zx wf_sole[OF w, of z y a] by (simp add: nth_append)
    qed
  qed
qed

lemma wf_heap_update:
  assumes w: "wf w" and h: "heap w a \<noteq> None" and i: "inv_data d" and n: "content d \<noteq> []"
  shows "wf (w\<lparr>heap := (heap w)(a \<mapsto> d)\<rparr>)" (is "wf ?w")
proof (rule wfI)
  fix b e assume "heap ?w b = Some e"
  then have "(b = a \<and> e = d) \<or> heap w b = Some e" by (simp split: if_splits)
  moreover have "a < next_addr w" using h wf_cell[OF w, of a] by auto
  ultimately show "b < next_addr ?w \<and> inv_data e \<and> content e \<noteq> []"
    using wf_cell[OF w, of b e] i n by auto
next
  fix z b assume "z < length (binders ?w)" "data_ptr (binders ?w ! z) = Some b"
  then show "heap ?w b \<noteq> None" using wf_ptr[OF w, of z b] by simp
next
  fix z y b
  assume "z < length (binders ?w)" "y < length (binders ?w)" "data_ptr (binders ?w ! z) = Some b"
    "read_called (binders ?w ! z)" "data_ptr (binders ?w ! y) = Some b"
  then show "y = z" using wf_sole[OF w, of z y b] by simp
qed

lemma wf_start: "wf start"
  by (rule wfI) (simp_all add: start_def)

lemma binder_upd [simp]:
  "b\<lparr>data_ptr := q\<rparr> = \<lparr>data_ptr = q, read_called = read_called b\<rparr>"
  by simp

lemma wf_new: "wf w \<Longrightarrow> post (binder_new w) = Some w' \<Longrightarrow> wf w'"
  using wf_append_binder[of w None False] by (auto simp: binder_new_def)

lemma wf_clear: "wf w \<Longrightarrow> post (binder_clear x w) = Some w' \<Longrightarrow> wf w'"
  using wf_release[OF wf_update_binder[of w x None False]]
  by (auto simp: binder_clear_def Let_def split: if_splits)

lemma wf_destroy: "wf w \<Longrightarrow> post (binder_destroy x w) = Some w' \<Longrightarrow> wf w'"
  using wf_release[OF wf_update_binder[of w x None "read_called (binders w ! x)"]]
  by (auto simp: binder_destroy_def Let_def split: if_splits)

lemma wf_share:
  assumes w: "wf w" and r: "rhs < length (binders w)"
    and c: "data_ptr (binders w ! rhs) = None \<or> \<not> read_called (binders w ! rhs)"
  shows "\<And>a. data_ptr (binders w ! rhs) = Some a \<Longrightarrow> heap w a \<noteq> None"
    and "\<And>a y. data_ptr (binders w ! rhs) = Some a \<Longrightarrow> y < length (binders w) \<Longrightarrow>
              data_ptr (binders w ! y) = Some a \<Longrightarrow> \<not> False \<and> \<not> read_called (binders w ! y)"
proof -
  show "heap w a \<noteq> None" if "data_ptr (binders w ! rhs) = Some a" for a
    using wf_ptr[OF w r that] .
  show "\<not> False \<and> \<not> read_called (binders w ! y)"
    if a: "data_ptr (binders w ! rhs) = Some a" and y: "y < length (binders w)"
      "data_ptr (binders w ! y) = Some a" for a y
  proof -
    have "rhs = y" if "read_called (binders w ! y)"
      using wf_sole[OF w y(1) r y(2) that a] .
    then show ?thesis using c a by auto
  qed
qed

lemma binder_copy_shares:
  assumes r: "rhs < length (binders w)" and c: "\<not> read_called (binders w ! rhs)"
  shows "binder_copy rhs w = Returns (length (binders w))
           (w\<lparr>binders := binders w @ [\<lparr>data_ptr = data_ptr (binders w ! rhs), read_called = False\<rparr>]\<rparr>)"
  using r c by (simp add: binder_copy_def)

lemma binder_copy_clones:
  assumes r: "rhs < length (binders w)" and c: "read_called (binders w ! rhs)"
    and a: "data_ptr (binders w ! rhs) = Some a" and d: "heap w a = Some d"
  shows "binder_copy rhs w = Returns (length (binders w))
           ((snd (make_shared (data_copy d) w))
              \<lparr>binders := binders w @ [\<lparr>data_ptr = Some (next_addr w), read_called = False\<rparr>]\<rparr>)"
  using r c a d by (simp add: binder_copy_def make_shared_def)

lemma binder_copy_undefined:
  assumes r: "rhs < length (binders w)" and c: "read_called (binders w ! rhs)"
    and a: "data_ptr (binders w ! rhs) = None"
  shows "binder_copy rhs w = Undefined"
  using r c a by (simp add: binder_copy_def)

lemma wf_clone_append:
  assumes w: "wf w" and d: "heap w a = Some d"
  shows "wf ((snd (make_shared (data_copy d) w))
              \<lparr>binders := binders w @ [\<lparr>data_ptr = Some (next_addr w), read_called = False\<rparr>]\<rparr>)"
proof -
  let ?w1 = "snd (make_shared (data_copy d) w)"
  have i: "inv_data d" "content d \<noteq> []" using wf_cell[OF w d] by auto
  then have dc: "data_copy d = d" by (simp add: data_copy_inv)
  have w1: "wf ?w1" using wf_alloc[OF w i] dc by simp
  have b: "binders ?w1 = binders w" by (simp add: make_shared_def)
  have "wf (?w1\<lparr>binders := binders ?w1 @ [\<lparr>data_ptr = Some (next_addr w), read_called = False\<rparr>]\<rparr>)"
  proof (rule wf_append_binder[OF w1])
    fix a' assume "Some (next_addr w) = Some a'"
    then show "heap ?w1 a' \<noteq> None" by (auto simp: make_shared_def)
  next
    fix a' y assume "Some (next_addr w) = Some a'" "y < length (binders ?w1)"
      "data_ptr (binders ?w1 ! y) = Some a'"
    then show "\<not> False \<and> \<not> read_called (binders ?w1 ! y)"
      using wf_next_unowned[OF w, of y] b by auto
  qed
  then show ?thesis using b by simp
qed

lemma wf_copy:
  assumes w: "wf w" and p: "post (binder_copy rhs w) = Some w'"
  shows "wf w'"
proof -
  have r: "rhs < length (binders w)" using p by (auto simp: binder_copy_def split: if_splits)
  show ?thesis
  proof (cases "read_called (binders w ! rhs)")
    case False
    then have "w' = w\<lparr>binders := binders w @ [\<lparr>data_ptr = data_ptr (binders w ! rhs), read_called = False\<rparr>]\<rparr>"
      using p binder_copy_shares[OF r False] by simp
    then show ?thesis
      using wf_append_binder[OF w wf_share[OF w r], of "data_ptr (binders w ! rhs)"] False by auto
  next
    case True
    then obtain a where a: "data_ptr (binders w ! rhs) = Some a"
      using p binder_copy_undefined[OF r True] by (cases "data_ptr (binders w ! rhs)") auto
    then obtain d where d: "heap w a = Some d" using wf_ptr[OF w r a] by auto
    show ?thesis
      using p binder_copy_clones[OF r True a d] wf_clone_append[OF w d] by simp
  qed
qed

lemma binder_assign_shares:
  assumes x: "x < length (binders w)" and r: "rhs < length (binders w)"
    and c: "data_ptr (binders w ! rhs) = None \<or> \<not> read_called (binders w ! rhs)"
  shows "binder_assign x rhs w = Returns () (release (data_ptr (binders w ! x))
           (w\<lparr>binders := (binders w)[x := \<lparr>data_ptr = data_ptr (binders w ! rhs), read_called = False\<rparr>]\<rparr>))"
  using x r c by (auto simp: binder_assign_def Let_def)

lemma binder_assign_clones:
  assumes x: "x < length (binders w)" and r: "rhs < length (binders w)"
    and c: "read_called (binders w ! rhs)"
    and a: "data_ptr (binders w ! rhs) = Some a" and d: "heap w a = Some d"
  shows "binder_assign x rhs w = Returns () (release (data_ptr (binders w ! x))
           ((snd (make_shared (data_copy d) w))
              \<lparr>binders := (binders w)[x := \<lparr>data_ptr = Some (next_addr w), read_called = False\<rparr>]\<rparr>))"
  using x r c a d by (simp add: binder_assign_def make_shared_def Let_def)

lemma wf_clone_update:
  assumes w: "wf w" and d: "heap w a = Some d" and x: "x < length (binders w)"
  shows "wf ((snd (make_shared (data_copy d) w))
              \<lparr>binders := (binders w)[x := \<lparr>data_ptr = Some (next_addr w), read_called = fl\<rparr>]\<rparr>)"
proof -
  let ?w1 = "snd (make_shared (data_copy d) w)"
  have i: "inv_data d" "content d \<noteq> []" using wf_cell[OF w d] by auto
  then have dc: "data_copy d = d" by (simp add: data_copy_inv)
  have w1: "wf ?w1" using wf_alloc[OF w i] dc by simp
  have b: "binders ?w1 = binders w" by (simp add: make_shared_def)
  have x1: "x < length (binders ?w1)" using x b by simp
  have "wf (?w1\<lparr>binders := (binders ?w1)[x := \<lparr>data_ptr = Some (next_addr w), read_called = fl\<rparr>]\<rparr>)"
  proof (rule wf_update_binder[OF w1 x1])
    fix a' assume "Some (next_addr w) = Some a'"
    then show "heap ?w1 a' \<noteq> None" by (auto simp: make_shared_def)
  next
    fix a' y assume "Some (next_addr w) = Some a'" "y < length (binders ?w1)" "y \<noteq> x"
      "data_ptr (binders ?w1 ! y) = Some a'"
    then show "\<not> fl \<and> \<not> read_called (binders ?w1 ! y)"
      using wf_next_unowned[OF w, of y] b by auto
  qed
  then show ?thesis using b by simp
qed

lemma wf_assign:
  assumes w: "wf w" and p: "post (binder_assign x rhs w) = Some w'"
  shows "wf w'"
proof -
  have x: "x < length (binders w)" and r: "rhs < length (binders w)"
    using p by (auto simp: binder_assign_def split: if_splits)
  show ?thesis
  proof (cases "data_ptr (binders w ! rhs) = None \<or> \<not> read_called (binders w ! rhs)")
    case True
    have "wf (w\<lparr>binders := (binders w)[x := \<lparr>data_ptr = data_ptr (binders w ! rhs), read_called = False\<rparr>]\<rparr>)"
      using wf_update_binder[OF w x, of "data_ptr (binders w ! rhs)" False] wf_share[OF w r True] by blast
    then show ?thesis using p binder_assign_shares[OF x r True] wf_release by auto
  next
    case False
    then obtain a where a: "data_ptr (binders w ! rhs) = Some a" and c: "read_called (binders w ! rhs)"
      by auto
    then obtain d where d: "heap w a = Some d" using wf_ptr[OF w r a] by auto
    show ?thesis
      using p binder_assign_clones[OF x r c a d] wf_release[OF wf_clone_update[OF w d x]] by auto
  qed
qed

lemma wf_moved_from:
  assumes w: "wf w" and r: "rhs < length (binders w)"
  shows "wf (w\<lparr>binders := (binders w)[rhs := \<lparr>data_ptr = None, read_called = read_called (binders w ! rhs)\<rparr>]\<rparr>)"
  using wf_update_binder[OF w r, of None] by simp

lemma moved_ptr:
  assumes w: "wf w" and r: "rhs < length (binders w)"
  shows "\<And>a. data_ptr (binders w ! rhs) = Some a \<Longrightarrow>
           heap (w\<lparr>binders := (binders w)[rhs := \<lparr>data_ptr = None, read_called = read_called (binders w ! rhs)\<rparr>]\<rparr>) a \<noteq> None"
    and "\<And>a y. data_ptr (binders w ! rhs) = Some a \<Longrightarrow> y < length (binders w) \<Longrightarrow>
           data_ptr ((binders w)[rhs := \<lparr>data_ptr = None, read_called = read_called (binders w ! rhs)\<rparr>] ! y) = Some a \<Longrightarrow>
           \<not> read_called (binders w ! rhs) \<and> y \<noteq> rhs \<and> \<not> read_called (binders w ! y)"
proof -
  show "heap (w\<lparr>binders := (binders w)[rhs := \<lparr>data_ptr = None, read_called = read_called (binders w ! rhs)\<rparr>]\<rparr>) a \<noteq> None"
    if "data_ptr (binders w ! rhs) = Some a" for a
    using wf_ptr[OF w r that] by simp
  show "\<not> read_called (binders w ! rhs) \<and> y \<noteq> rhs \<and> \<not> read_called (binders w ! y)"
    if a: "data_ptr (binders w ! rhs) = Some a" and y: "y < length (binders w)"
      and ya: "data_ptr ((binders w)[rhs := \<lparr>data_ptr = None, read_called = read_called (binders w ! rhs)\<rparr>] ! y) = Some a"
    for a y
  proof -
    have ne: "y \<noteq> rhs" using ya r by auto
    then have yo: "data_ptr (binders w ! y) = Some a" using ya by simp
    have "\<not> read_called (binders w ! rhs)" using wf_sole[OF w r y a _ yo] ne by blast
    moreover have "\<not> read_called (binders w ! y)" using wf_sole[OF w y r yo _ a] ne by blast
    ultimately show ?thesis using ne by simp
  qed
qed

lemma wf_move:
  assumes w: "wf w" and p: "post (binder_move rhs w) = Some w'"
  shows "wf w'"
proof -
  have r: "rhs < length (binders w)" using p by (auto simp: binder_move_def split: if_splits)
  let ?w1 = "w\<lparr>binders := (binders w)[rhs := \<lparr>data_ptr = None, read_called = read_called (binders w ! rhs)\<rparr>]\<rparr>"
  have w1: "wf ?w1" by (rule wf_moved_from[OF w r])
  have "wf (?w1\<lparr>binders := binders ?w1 @ [\<lparr>data_ptr = data_ptr (binders w ! rhs), read_called = read_called (binders w ! rhs)\<rparr>]\<rparr>)"
  proof (rule wf_append_binder[OF w1])
    fix a assume "data_ptr (binders w ! rhs) = Some a"
    then show "heap ?w1 a \<noteq> None" using moved_ptr(1)[OF w r] by blast
  next
    fix a y assume "data_ptr (binders w ! rhs) = Some a" "y < length (binders ?w1)"
      "data_ptr (binders ?w1 ! y) = Some a"
    then show "\<not> read_called (binders w ! rhs) \<and> \<not> read_called (binders ?w1 ! y)"
      using moved_ptr(2)[OF w r, of a y] by auto
  qed
  then show ?thesis using p r by (simp add: binder_move_def Let_def)
qed

lemma wf_move_assign:
  assumes w: "wf w" and p: "post (binder_move_assign x rhs w) = Some w'"
  shows "wf w'"
proof -
  have x: "x < length (binders w)" and r: "rhs < length (binders w)"
    using p by (auto simp: binder_move_assign_def split: if_splits)
  show ?thesis
  proof (cases "x = rhs")
    case True
    then show ?thesis using p w x by (simp add: binder_move_assign_def)
  next
    case False
    let ?w1 = "w\<lparr>binders := (binders w)[rhs := \<lparr>data_ptr = None, read_called = read_called (binders w ! rhs)\<rparr>]\<rparr>"
    have w1: "wf ?w1" by (rule wf_moved_from[OF w r])
    have x1: "x < length (binders ?w1)" using x by simp
    have "wf (?w1\<lparr>binders := (binders ?w1)[x := \<lparr>data_ptr = data_ptr (binders w ! rhs), read_called = read_called (binders w ! rhs)\<rparr>]\<rparr>)"
    proof (rule wf_update_binder[OF w1 x1])
      fix a assume "data_ptr (binders w ! rhs) = Some a"
      then show "heap ?w1 a \<noteq> None" using moved_ptr(1)[OF w r] by blast
    next
      fix a y assume "data_ptr (binders w ! rhs) = Some a" "y < length (binders ?w1)" "y \<noteq> x"
        "data_ptr (binders ?w1 ! y) = Some a"
      then show "\<not> read_called (binders w ! rhs) \<and> \<not> read_called (binders ?w1 ! y)"
        using moved_ptr(2)[OF w r, of a y] by auto
    qed
    then show ?thesis
      using p x r False wf_release by (auto simp: binder_move_assign_def Let_def)
  qed
qed

lemma list_assign_shape:
  "list_assign n v c = Some c' \<Longrightarrow>
   map (\<lambda>e. (fst e, fst (snd e))) c' = map (\<lambda>e. (fst e, fst (snd e))) c"
proof (induction c arbitrary: c')
  case Nil
  then show ?case by simp
next
  case (Cons e c)
  obtain m k u where e: "e = (m, k, u)" by (cases e) auto
  show ?case
  proof (cases "m = n")
    case True
    then show ?thesis using Cons.prems e by auto
  next
    case False
    then obtain c0 where c0: "list_assign n v c = Some c0" "c' = (m, k, u) # c0"
      using Cons.prems e by auto
    then show ?thesis using Cons.IH[OF c0(1)] e by simp
  qed
qed

lemma list_assign_defined:
  "list_deref n c \<noteq> None \<Longrightarrow> list_assign n v c \<noteq> None"
  by (induction c) auto

lemma inv_data_assign:
  assumes i: "inv_data d" and a: "list_assign n v (content d) = Some c'"
  shows "inv_data (d\<lparr>content := c'\<rparr>) \<and> (content d \<noteq> [] \<longrightarrow> c' \<noteq> [])"
proof -
  have s: "map (\<lambda>e. (fst e, fst (snd e))) c' = map (\<lambda>e. (fst e, fst (snd e))) (content d)"
    by (rule list_assign_shape[OF a])
  have 1: "map fst c' = map fst (content d)"
    using arg_cong[OF s, of "map fst"] by (simp add: comp_def)
  have 2: "map fst (map snd c') = map fst (map snd (content d))"
    using arg_cong[OF s, of "map snd"] by (simp add: comp_def)
  have 3: "(\<exists>u. (m, k, u) \<in> set c') \<longleftrightarrow> (\<exists>u. (m, k, u) \<in> set (content d))" for m k
  proof -
    have e: "(\<exists>u. (m, k, u) \<in> set xs) \<longleftrightarrow> (m, k) \<in> set (map (\<lambda>e. (fst e, fst (snd e))) xs)"
      for xs :: "('a, 'b) node list"
      by force
    show ?thesis unfolding e s ..
  qed
  have "inv_data (d\<lparr>content := c'\<rparr>)"
    using i 1 2 3 unfolding inv_data_def entries_def by simp
  moreover have "content d \<noteq> [] \<longrightarrow> c' \<noteq> []" using arg_cong[OF 1, of length] by auto
  ultimately show ?thesis by blast
qed

lemma wf_ref_write:
  assumes w: "wf w" and p: "post (ref_write r v w) = Some w'"
  shows "wf w'"
proof -
  obtain a n where r: "r = Ref a n" by (cases r) auto
  obtain d c where d: "heap w a = Some d" "list_assign n v (content d) = Some c"
    "w' = w\<lparr>heap := (heap w)(a \<mapsto> d\<lparr>content := c\<rparr>)\<rparr>"
    using p r by (auto simp: ref_write_def split: option.splits)
  have i: "inv_data (d\<lparr>content := c\<rparr>)" "content (d\<lparr>content := c\<rparr>) \<noteq> []"
    using inv_data_assign[OF _ d(2)] wf_cell[OF w d(1)] by auto
  have "heap w a \<noteq> None" using d(1) by simp
  then show ?thesis using wf_heap_update[OF w _ i] d(3) by simp
qed

lemma ref_write_frame:
  assumes p: "post (ref_write (Ref a n) v w) = Some w'" and y: "data_ptr (binders w ! y) \<noteq> Some a"
  shows "entries_of w' y = entries_of w y"
  using p y by (auto simp: ref_write_def entries_of_def split: option.splits)

lemma ref_write_binders:
  "post (ref_write r v w) = Some w' \<Longrightarrow> binders w' = binders w"
  by (cases r) (auto simp: ref_write_def split: option.splits)

lemma wf_const:
  "post (binder_read_const x k w) = Some w' \<Longrightarrow> w' = w"
  "post (binder_size x w) = Some w' \<Longrightarrow> w' = w"
  "post (binder_cbegin x w) = Some w' \<Longrightarrow> w' = w"
  "post (binder_cend x w) = Some w' \<Longrightarrow> w' = w"
  by (auto simp: binder_read_const_def binder_size_def binder_cbegin_def binder_cend_def
      split: if_splits option.splits outcome.splits)

lemma post_map_result [simp]: "post (map_result g r) = post r"
  by (cases r) auto

lemma wf_cow:
  assumes w: "wf w" and gd: "good shrink f" and p: "post (cow null_ok f flag shrink x w) = Some w'"
  shows "wf w'"
proof -
  have x: "x < length (binders w)" using p by (auto simp: cow_def split: if_splits)
  show ?thesis
  proof (cases "data_ptr (binders w ! x) \<noteq> None \<or> null_ok")
    case True
    consider (thr) e w1 where "cow null_ok f flag shrink x w = Throws e w1" "heap w1 = heap w"
        "binders w1 = binders w" "next_addr w \<le> next_addr w1"
      | (ret) r d' q w1 where "inv_data d'" "\<not> shrink \<longrightarrow> content d' \<noteq> []"
        "cow null_ok f flag shrink x w = Returns (q, r) w1" "cow_post w x flag shrink q d' w1"
      using cow_cases[where f=f and flag=flag and null_ok=null_ok, OF w x gd True] by blast
    then show ?thesis
    proof cases
      case thr
      then have "w1 = w'" using p by simp
      then show ?thesis using wf_same[OF w thr(2,3,4)] by simp
    next
      case ret
      then have "w1 = w'" using p by simp
      then show ?thesis using cow_post_wf[OF w x ret(4,1,2)] by simp
    qed
  next
    case False
    then show ?thesis using p w x by (simp add: cow_def)
  qed
qed

lemma wf_mutate:
  assumes w: "wf w" and p: "mutate x m w = Some w'"
  shows "wf w'"
proof (cases m)
  case (Insert_front k v)
  then show ?thesis using p wf_cow[OF w good_insert_front] by (simp add: insert_front_cow)
next
  case (Insert_after pk k v)
  then show ?thesis using p wf_cow[OF w good_insert_after] by (simp add: insert_after_cow)
next
  case Remove
  then show ?thesis using p wf_cow[OF w good_remove] by (simp add: remove_cow)
next
  case (Remove_key k)
  then show ?thesis using p wf_cow[OF w good_remove_key] by (simp add: remove_key_cow)
next
  case (Read k)
  then show ?thesis using p wf_cow[OF w good_read] by (simp add: read_cow)
next
  case (Write r v)
  then show ?thesis using p wf_ref_write[OF w] by simp
qed

lemma wf_exec:
  assumes w: "wf w" and p: "exec c w = Some w'"
  shows "wf w'"
proof (cases c)
  case New
  then show ?thesis using p wf_new[OF w] by simp
next
  case (Copy rhs)
  then show ?thesis using p wf_copy[OF w] by simp
next
  case (Move rhs)
  then show ?thesis using p wf_move[OF w] by simp
next
  case (Assign x rhs)
  then show ?thesis using p wf_assign[OF w] by simp
next
  case (Move_assign x rhs)
  then show ?thesis using p wf_move_assign[OF w] by simp
next
  case (Destroy x)
  then show ?thesis using p wf_destroy[OF w] by simp
next
  case (Clear x)
  then show ?thesis using p wf_clear[OF w] by simp
next
  case (Mutate x m)
  then show ?thesis using p wf_mutate[OF w] by simp
next
  case (Read_const x k)
  then show ?thesis using p w wf_const(1) by fastforce
next
  case (Size x)
  then show ?thesis using p w wf_const(2) by fastforce
next
  case (Cbegin x)
  then show ?thesis using p w wf_const(3) by fastforce
next
  case (Cend x)
  then show ?thesis using p w wf_const(4) by fastforce
qed

lemma reachable_wf: "reachable w \<Longrightarrow> wf w"
  by (induction rule: reachable.induct) (auto intro: wf_start wf_exec)

section \<open>The example states are reachable\<close>

lemma exec_world_0: "exec New start = Some world_0"
  by (simp add: binder_new_def start_def world_0_def)

lemma exec_world_1: "exec (Mutate 0 (Insert_front 1 10)) world_0 = Some world_1"
  by (simp add: world_0_def world_1_def binder_insert_front_def get_new_unique_shared_def
      make_shared_def data_new_def data_insert_front_def use_count_def release_def map_insert_def Let_def)

lemma exec_world_2: "exec (Mutate 0 (Read 1)) world_1 = Some world_2"
  by (simp add: world_1_def world_2_def binder_read_def get_new_unique_shared_def
      make_shared_def data_read_def use_count_def release_def Let_def)

lemma reachable_world_0: "reachable world_0"
  using reachable_exec[OF reachable_start exec_world_0] .

lemma reachable_world_1: "reachable world_1"
  using reachable_exec[OF reachable_world_0 exec_world_1] .

lemma reachable_world_2: "reachable world_2"
  using reachable_exec[OF reachable_world_1 exec_world_2] .

section \<open>Failures of insert\_after\<close>

lemma insert_after_outcomes:
  assumes w: "wf w" and x: "x < length (binders w)"
  shows "(entries_of w x = [] \<longrightarrow> binder_insert_after x pk k v w = Throws Binder_is_empty w) \<and>
         (k \<in> fst ` set (entries_of w x) \<longrightarrow>
            (\<exists>w'. binder_insert_after x pk k v w = Throws Already_contains_key w')) \<and>
         (entries_of w x \<noteq> [] \<and> k \<notin> fst ` set (entries_of w x) \<and> pk \<notin> fst ` set (entries_of w x) \<longrightarrow>
            (\<exists>w'. binder_insert_after x pk k v w = Throws No_previous_entry w')) \<and>
         (k \<notin> fst ` set (entries_of w x) \<and> pk \<in> fst ` set (entries_of w x) \<longrightarrow>
            (\<exists>w'. binder_insert_after x pk k v w = Returns () w'))"
proof (intro conjI impI)
  assume "entries_of w x = []"
  then show "binder_insert_after x pk k v w = Throws Binder_is_empty w"
    by (rule binder_insert_after_empty[OF w x])
next
  assume "k \<in> fst ` set (entries_of w x)"
  then show "\<exists>w'. binder_insert_after x pk k v w = Throws Already_contains_key w'"
    using binder_insert_after_dup[OF w x, of k pk v] by blast
next
  assume "entries_of w x \<noteq> [] \<and> k \<notin> fst ` set (entries_of w x) \<and> pk \<notin> fst ` set (entries_of w x)"
  then show "\<exists>w'. binder_insert_after x pk k v w = Throws No_previous_entry w'"
    using binder_insert_after_no_prev[OF w x, of k pk v] by blast
next
  assume "k \<notin> fst ` set (entries_of w x) \<and> pk \<in> fst ` set (entries_of w x)"
  then show "\<exists>w'. binder_insert_after x pk k v w = Returns () w'"
    using binder_insert_after_returns[OF w x, of k pk v] by blast
qed

text \<open>
  C7, as amended. In every state a program can reach, \<^verbatim>\<open>insert_after(pk, k, v)\<close> on a
  handle without entries throws "binder is empty" (the handle's own test of
  \<^verbatim>\<open>data_ptr\<close>) and leaves the state as it is; on a handle with entries it throws
  "binder already contains entry with given key" when \<open>k\<close> is present, "binder doesn't
  contain previous entry" when \<open>k\<close> is absent and \<open>pk\<close> is absent, and returns when
  \<open>k\<close> is absent and \<open>pk\<close> is present.
\<close>

theorem insert_after_failures:
  assumes "reachable w" and "x < length (binders w)"
  shows "(entries_of w x = [] \<longrightarrow> binder_insert_after x pk k v w = Throws Binder_is_empty w) \<and>
         (k \<in> fst ` set (entries_of w x) \<longrightarrow>
            (\<exists>w'. binder_insert_after x pk k v w = Throws Already_contains_key w')) \<and>
         (entries_of w x \<noteq> [] \<and> k \<notin> fst ` set (entries_of w x) \<and> pk \<notin> fst ` set (entries_of w x) \<longrightarrow>
            (\<exists>w'. binder_insert_after x pk k v w = Throws No_previous_entry w')) \<and>
         (k \<notin> fst ` set (entries_of w x) \<and> pk \<in> fst ` set (entries_of w x) \<longrightarrow>
            (\<exists>w'. binder_insert_after x pk k v w = Returns () w'))"
  using insert_after_outcomes[OF reachable_wf[OF assms(1)] assms(2)] .

lemma entries_of_world_0: "entries_of world_0 0 = []"
  by (simp add: entries_of_def world_0_def)

lemma entries_of_world_1: "entries_of world_1 0 = [(1, 10)]"
  by (simp add: entries_of_def world_1_def entries_def)

theorem insert_after_failures_witness:
  "reachable world_1 \<and> 0 < length (binders world_1) \<and>
   entries_of world_1 0 \<noteq> [] \<and> 2 \<notin> fst ` set (entries_of world_1 0) \<and> 3 \<notin> fst ` set (entries_of world_1 0) \<and>
   1 \<in> fst ` set (entries_of world_1 0) \<and>
   (\<exists>w'. binder_insert_after 0 1 1 5 world_1 = Throws Already_contains_key w') \<and>
   (\<exists>w'. binder_insert_after 0 3 2 5 world_1 = Throws No_previous_entry w') \<and>
   (\<exists>w'. binder_insert_after 0 1 2 5 world_1 = Returns () w') \<and>
   reachable world_0 \<and> 0 < length (binders world_0) \<and> entries_of world_0 0 = [] \<and>
   binder_insert_after 0 1 2 5 world_0 = Throws Binder_is_empty world_0"
proof -
  have l: "0 < length (binders world_1)" "0 < length (binders world_0)"
    by (simp_all add: world_1_def world_0_def)
  show ?thesis
    using insert_after_failures[OF reachable_world_1 l(1), where pk=1 and k=1 and v=5]
      insert_after_failures[OF reachable_world_1 l(1), where pk=3 and k=2 and v=5]
      insert_after_failures[OF reachable_world_1 l(1), where pk=1 and k=2 and v=5]
      insert_after_failures[OF reachable_world_0 l(2), where pk=1 and k=2 and v=5]
      reachable_world_1 reachable_world_0 l
    by (simp add: entries_of_world_1 entries_of_world_0)
qed

text \<open>
  C7 as stated fails on a handle without entries: the error is "binder is empty", thrown
  before any lookup of the anchor, and not "binder doesn't contain previous entry".
\<close>

theorem insert_after_empty_counterexample:
  "reachable world_0 \<and> entries_of world_0 0 = [] \<and>
   binder_insert_after 0 1 2 5 world_0 = Throws Binder_is_empty world_0 \<and>
   binder_insert_after 0 1 2 5 world_0 \<noteq> Throws No_previous_entry world_0"
  using reachable_world_0
  by (simp add: entries_of_world_0) (simp add: binder_insert_after_def world_0_def)

text \<open>
  C10. In every state a program can reach, \<^verbatim>\<open>insert_after(pk, k, v)\<close> on a handle that
  has the key \<open>k\<close> and has not the key \<open>pk\<close> throws "binder already contains entry
  with given key".
\<close>

theorem insert_after_duplicate_first:
  assumes "reachable w" and "x < length (binders w)"
    and "k \<in> fst ` set (entries_of w x)" and "pk \<notin> fst ` set (entries_of w x)"
  shows "\<exists>w'. binder_insert_after x pk k v w = Throws Already_contains_key w' \<and>
           heap w' = heap w \<and> binders w' = binders w"
  using binder_insert_after_dup[OF reachable_wf[OF assms(1)] assms(2,3)] by blast

theorem insert_after_duplicate_first_witness:
  "reachable world_1 \<and> 0 < length (binders world_1) \<and>
   1 \<in> fst ` set (entries_of world_1 0) \<and> 2 \<notin> fst ` set (entries_of world_1 0) \<and>
   (\<exists>w'. binder_insert_after 0 2 1 5 world_1 = Throws Already_contains_key w' \<and>
      heap w' = heap world_1 \<and> binders w' = binders world_1)"
proof -
  have l: "0 < length (binders world_1)" by (simp add: world_1_def)
  have k: "1 \<in> fst ` set (entries_of world_1 0)" "2 \<notin> fst ` set (entries_of world_1 0)"
    by (simp_all add: entries_of_world_1)
  show ?thesis
    using insert_after_duplicate_first[OF reachable_world_1 l k, where v=5] reachable_world_1 l k
    by simp
qed

section \<open>Placement by insert\_after\<close>

lemma wf_distinct_keys:
  assumes w: "wf w" and x: "x < length (binders w)"
  shows "distinct (map fst (entries_of w x))"
  using wf_inv_cur[OF w x] wf_entries_cur[OF w x] by (simp add: inv_data_def)

lemma successor_here:
  "pk \<notin> fst ` set xs \<Longrightarrow> successor pk (xs @ (pk, pv) # (k, v) # ys) = Some k"
proof (induction xs)
  case Nil
  then show ?case by simp
next
  case (Cons e xs)
  then show ?case by (cases xs) auto
qed

lemma successor_Cons:
  "fst e \<noteq> pk \<Longrightarrow> successor pk (e # es) = successor pk es"
  by (cases es) auto

lemma successor_elsewhere:
  "a \<noteq> pk \<Longrightarrow> k' \<noteq> pk \<Longrightarrow>
   successor pk (xs @ (a, av) # (k', v') # ys) = successor pk (xs @ (a, av) # ys)"
proof (induction xs)
  case Nil
  then show ?case by (simp add: successor_Cons)
next
  case (Cons e xs)
  show ?case
  proof (cases "fst e = pk")
    case True
    then show ?thesis by (cases xs) auto
  next
    case False
    then show ?thesis using Cons by (simp add: successor_Cons)
  qed
qed

lemma successor_in_keys: "successor pk es = Some k \<Longrightarrow> pk \<in> fst ` set es"
proof (induction es)
  case Nil
  then show ?case by simp
next
  case (Cons e es)
  then show ?case by (cases es) (auto split: if_splits)
qed

lemma insert_front_returns_iff:
  assumes w: "wf w" and x: "x < length (binders w)" and r: "binder_insert_front x k v w = Returns () w'"
  shows "k \<notin> fst ` set (entries_of w x) \<and> entries_of w' x = (k, v) # entries_of w x"
proof -
  have "k \<notin> fst ` set (entries_of w x)"
    using binder_insert_front_throws[OF w x, of k v] r by auto
  then show ?thesis using binder_insert_front_returns[OF w x, of k v] r by auto
qed

lemma insert_after_returns_iff:
  assumes w: "wf w" and x: "x < length (binders w)" and r: "binder_insert_after x pk k v w = Returns () w'"
  shows "k \<notin> fst ` set (entries_of w x) \<and> pk \<in> fst ` set (entries_of w x) \<and>
         (\<exists>xs pv ys. entries_of w x = xs @ (pk, pv) # ys \<and> entries_of w' x = xs @ (pk, pv) # (k, v) # ys)"
proof -
  have k: "k \<notin> fst ` set (entries_of w x)"
    using binder_insert_after_dup[OF w x, of k pk v] r by auto
  have e: "entries_of w x \<noteq> []"
    using binder_insert_after_empty[OF w x, of pk k v] r by auto
  have pk: "pk \<in> fst ` set (entries_of w x)"
    using binder_insert_after_no_prev[OF w x e k, of pk v] r by auto
  show ?thesis using binder_insert_after_returns[OF w x k pk, of v] r k pk by auto
qed

text \<open>
  C5. In every state a program can reach, when the key \<open>k\<close> is absent and the anchor
  \<open>pk\<close> is present, \<^verbatim>\<open>insert_after(pk, k, v)\<close> returns; the entries before the anchor,
  the anchor and the entries after it keep their order, and the new entry stands between
  the anchor and what followed it, so \<open>k\<close> is the key that immediately follows
  \<open>pk\<close>. While \<open>k\<close> immediately follows \<open>pk\<close>, an \<^verbatim>\<open>insert_front\<close> that returns and
  an \<^verbatim>\<open>insert_after\<close> with another anchor that returns leave \<open>k\<close> immediately
  after \<open>pk\<close>.
\<close>

theorem insert_after_placement:
  assumes "reachable w" and "x < length (binders w)"
  shows "(k \<notin> fst ` set (entries_of w x) \<and> pk \<in> fst ` set (entries_of w x) \<longrightarrow>
            (\<exists>w' xs pv ys. binder_insert_after x pk k v w = Returns () w' \<and>
               entries_of w x = xs @ (pk, pv) # ys \<and>
               entries_of w' x = xs @ (pk, pv) # (k, v) # ys \<and>
               successor pk (entries_of w' x) = Some k)) \<and>
         (successor pk (entries_of w x) = Some k \<longrightarrow>
            (\<forall>w'. binder_insert_front x k' v' w = Returns () w' \<longrightarrow>
                successor pk (entries_of w' x) = Some k) \<and>
            (\<forall>w'. a \<noteq> pk \<and> binder_insert_after x a k' v' w = Returns () w' \<longrightarrow>
                successor pk (entries_of w' x) = Some k))"
proof (intro conjI impI allI)
  have w: "wf w" by (rule reachable_wf[OF assms(1)])
  note x = assms(2)
  {
    assume "k \<notin> fst ` set (entries_of w x) \<and> pk \<in> fst ` set (entries_of w x)"
    then obtain w' xs pv ys where r: "binder_insert_after x pk k v w = Returns () w'"
      "entries_of w x = xs @ (pk, pv) # ys" "entries_of w' x = xs @ (pk, pv) # (k, v) # ys"
      using binder_insert_after_returns[OF w x, of k pk v] by blast
    have "pk \<notin> fst ` set xs" using wf_distinct_keys[OF w x] r(2) by auto
    then have "successor pk (entries_of w' x) = Some k" using r(3) by (simp add: successor_here)
    then show "\<exists>w' xs pv ys. binder_insert_after x pk k v w = Returns () w' \<and>
               entries_of w x = xs @ (pk, pv) # ys \<and>
               entries_of w' x = xs @ (pk, pv) # (k, v) # ys \<and>
               successor pk (entries_of w' x) = Some k"
      using r by blast
  }
  {
    fix w' assume s: "successor pk (entries_of w x) = Some k"
      and r: "binder_insert_front x k' v' w = Returns () w'"
    have "k' \<noteq> pk" using insert_front_returns_iff[OF w x r] successor_in_keys[OF s] by auto
    then show "successor pk (entries_of w' x) = Some k"
      using insert_front_returns_iff[OF w x r] s by (simp add: successor_Cons)
  }
  {
    fix w' assume s: "successor pk (entries_of w x) = Some k"
      and r: "a \<noteq> pk \<and> binder_insert_after x a k' v' w = Returns () w'"
    then obtain xs av ys where e: "k' \<notin> fst ` set (entries_of w x)"
      "entries_of w x = xs @ (a, av) # ys" "entries_of w' x = xs @ (a, av) # (k', v') # ys"
      using insert_after_returns_iff[OF w x, of a k' v' w'] by blast
    have "k' \<noteq> pk" using e(1) successor_in_keys[OF s] by auto
    then show "successor pk (entries_of w' x) = Some k"
      using r s e(2,3) by (simp add: successor_elsewhere)
  }
qed

lemma length_world_1: "0 < length (binders world_1)"
  by (simp add: world_1_def)

lemma reachable_mutate: "reachable w \<Longrightarrow> mutate x m w = Some w' \<Longrightarrow> reachable w'"
  using reachable_exec[of w "Mutate x m" w'] by simp

theorem insert_after_placement_witness:
  "reachable world_1 \<and> 0 < length (binders world_1) \<and>
   2 \<notin> fst ` set (entries_of world_1 0) \<and> 1 \<in> fst ` set (entries_of world_1 0) \<and>
   (\<exists>w'. binder_insert_after 0 1 2 5 world_1 = Returns () w' \<and>
      entries_of w' 0 = [(1, 10), (2, 5)] \<and> successor 1 (entries_of w' 0) = Some 2 \<and>
      (\<exists>w''. binder_insert_front 0 3 7 w' = Returns () w'' \<and> successor 1 (entries_of w'' 0) = Some 2) \<and>
      (\<exists>w''. binder_insert_after 0 2 4 8 w' = Returns () w'' \<and> successor 1 (entries_of w'' 0) = Some 2))"
proof -
  note r1 = reachable_world_1 and l1 = length_world_1
  have k: "2 \<notin> fst ` set (entries_of world_1 0)" "1 \<in> fst ` set (entries_of world_1 0)"
    by (simp_all add: entries_of_world_1)
  obtain w' xs pv ys where a: "binder_insert_after 0 1 2 5 world_1 = Returns () w'"
    "entries_of world_1 0 = xs @ (1, pv) # ys" "entries_of w' 0 = xs @ (1, pv) # (2, 5) # ys"
    "successor 1 (entries_of w' 0) = Some 2"
    using insert_after_placement[OF r1 l1, where k=2 and pk=1 and v=5] k by blast
  have "xs = [] \<and> pv = 10 \<and> ys = []"
    using a(2) by (auto simp: entries_of_world_1 Cons_eq_append_conv)
  then have e: "entries_of w' 0 = [(1, 10), (2, 5)]" using a(3) by simp
  have r': "reachable w'" using reachable_mutate[OF r1, of 0 "Insert_after 1 2 5" w'] a(1) by simp
  have l': "0 < length (binders w')"
    using binder_insert_after_returns[OF reachable_wf[OF r1] l1 k, of 5] a(1) l1 by auto
  obtain w2 where f: "binder_insert_front 0 3 7 w' = Returns () w2"
    using binder_insert_front_returns[OF reachable_wf[OF r'] l', of 3 7] e by auto
  obtain w3 where g: "binder_insert_after 0 2 4 8 w' = Returns () w3"
    using binder_insert_after_returns[OF reachable_wf[OF r'] l', of 4 2 8] e by auto
  have "successor 1 (entries_of w2 0) = Some 2" "successor 1 (entries_of w3 0) = Some 2"
    using insert_after_placement[OF r' l', where k=2 and pk=1 and k'=3 and v'=7 and a=2] a(4) f
      insert_after_placement[OF r' l', where k=2 and pk=1 and k'=4 and v'=8 and a=2] g
    by auto
  then show ?thesis using r1 l1 k a(1,4) e f g by auto
qed

section \<open>Insertion followed by removal\<close>




section \<open>Failed calls\<close>

lemma map_result_Throws [simp]: "map_result g r = Throws e s \<longleftrightarrow> r = Throws e s"
  by (cases r) auto


lemma cow_throws_only:
  assumes w: "wf w" and x: "x < length (binders w)" and gd: "good shrink f"
    and c: "cow null_ok f flag shrink x w = Throws e w'"
  shows "binders w' = binders w \<and> heap w' = heap w \<and>
         ((data_ptr (binders w ! x) = None \<and> e = Binder_is_empty) \<or>
          f (cur w x) = Throws e (cur w x))"
proof (cases "data_ptr (binders w ! x) \<noteq> None \<or> null_ok")
  case True
  consider (thr) e1 w1 where "f (cur w x) = Throws e1 (cur w x)"
      "cow null_ok f flag shrink x w = Throws e1 w1" "heap w1 = heap w" "binders w1 = binders w"
    | (ret) r q w1 where "cow null_ok f flag shrink x w = Returns (q, r) w1"
    using cow_cases[where f=f and flag=flag and null_ok=null_ok, OF w x gd True] by blast
  then show ?thesis
  proof cases
    case thr
    then show ?thesis using c by simp
  next
    case ret
    then show ?thesis using c by simp
  qed
next
  case False
  then show ?thesis using c x by (simp add: cow_def)
qed

lemma call_throws:
  assumes w: "wf w" and x: "x < length (binders w)" and c: "call x m w = Throws e w'"
  shows "binders w' = binders w \<and> heap w' = heap w \<and>
         ((data_ptr (binders w ! x) = None \<and> e = Binder_is_empty) \<or>
          data_call m (cur w x) = Throws e (cur w x))"
proof (cases m)
  case (Insert_front k v)
  then show ?thesis
    using c cow_throws_only[OF w x good_insert_front, of True k v False e w']
    by (simp add: insert_front_cow)
next
  case (Insert_after pk k v)
  then show ?thesis
    using c cow_throws_only[OF w x good_insert_after, of False pk k v False e w']
    by (simp add: insert_after_cow)
next
  case Remove
  then show ?thesis
    using c cow_throws_only[OF w x good_remove, of False False e w']
    by (simp add: remove_cow)
next
  case (Remove_key k)
  then show ?thesis
    using c cow_throws_only[OF w x good_remove_key, of False k False e w']
    by (simp add: remove_key_cow)
next
  case (Read k)
  then show ?thesis
    using c cow_throws_only[OF w x good_read, of False k True e w']
    by (simp add: read_cow)
next
  case (Write r v)
  then show ?thesis
    using c by (cases r) (simp add: ref_write_def split: option.splits)
qed

text \<open>
  C3. In every state a program can reach, a call of \<^verbatim>\<open>insert_front\<close>,
  \<^verbatim>\<open>insert_after\<close>, \<^verbatim>\<open>remove\<close> or \<^verbatim>\<open>read\<close> that throws leaves the heap and every
  handle (its pointer and its flag) as they were, so every handle shows the entries it
  showed, whether or not the call had copied the instance before it threw; the error is
  "binder is empty" of the handle's own test, or the very error that the member of the
  instance threw. A constant \<^verbatim>\<open>read\<close> that throws leaves the state as it is, and
  \<^verbatim>\<open>insert_front\<close> of a key that the handle has throws "binder already contains entry
  with given key".
\<close>

theorem failed_call_changes_nothing:
  assumes "reachable w" and "x < length (binders w)"
  shows "(\<forall>e w'. call x m w = Throws e w' \<longrightarrow>
            binders w' = binders w \<and> heap w' = heap w \<and>
            (\<forall>y. entries_of w' y = entries_of w y) \<and>
            ((data_ptr (binders w ! x) = None \<and> e = Binder_is_empty) \<or>
             data_call m (cur w x) = Throws e (cur w x))) \<and>
         (\<forall>e w'. binder_read_const x k w = Throws e w' \<longrightarrow> w' = w) \<and>
         (k \<in> fst ` set (entries_of w x) \<longrightarrow>
            (\<exists>w'. binder_insert_front x k v w = Throws Already_contains_key w'))"
proof (intro conjI allI impI)
  have w: "wf w" by (rule reachable_wf[OF assms(1)])
  note x = assms(2)
  {
    fix e w' assume c: "call x m w = Throws e w'"
    note t = call_throws[OF w x c]
    show "binders w' = binders w" "heap w' = heap w" using t by blast+
    show "(data_ptr (binders w ! x) = None \<and> e = Binder_is_empty) \<or>
             data_call m (cur w x) = Throws e (cur w x)" using t by blast
    fix y show "entries_of w' y = entries_of w y"
      using t same_entries_of[of w' w y] by blast
  }
  {
    fix e w' assume "binder_read_const x k w = Throws e w'"
    then show "w' = w"
      by (auto simp: binder_read_const_def split: if_splits option.splits outcome.splits)
  }
  {
    assume "k \<in> fst ` set (entries_of w x)"
    then show "\<exists>w'. binder_insert_front x k v w = Throws Already_contains_key w'"
      using binder_insert_front_throws[OF w x, of k v] by blast
  }
qed

theorem failed_call_changes_nothing_witness:
  "reachable world_1 \<and> 0 < length (binders world_1) \<and> 1 \<in> fst ` set (entries_of world_1 0) \<and>
   (\<exists>w'. call 0 (Insert_front 1 5) world_1 = Throws Already_contains_key w' \<and>
      binders w' = binders world_1 \<and> heap w' = heap world_1 \<and>
      (\<forall>y. entries_of w' y = entries_of world_1 y)) \<and>
   binder_read_const 0 2 world_1 = Throws Note_not_in_binder world_1"
proof -
  have k: "1 \<in> fst ` set (entries_of world_1 0)" by (simp add: entries_of_world_1)
  note t = failed_call_changes_nothing[OF reachable_world_1 length_world_1,
      where m="Insert_front 1 5" and k=1 and v=5]
  obtain w' where c: "call 0 (Insert_front 1 5) world_1 = Throws Already_contains_key w'"
    using t k by auto
  have "binders w' = binders world_1 \<and> heap w' = heap world_1 \<and>
      (\<forall>y. entries_of w' y = entries_of world_1 y)"
    using t c by blast
  moreover have "binder_read_const 0 2 world_1 = Throws Note_not_in_binder world_1"
    by (simp add: binder_read_const_def world_1_def data_read_const_def)
  ultimately show ?thesis using reachable_world_1 length_world_1 k c by blast
qed

section \<open>The empty state\<close>

lemma binder_size_eq:
  assumes w: "wf w" and x: "x < length (binders w)"
  shows "binder_size x w = Returns (length (entries_of w x)) w"
proof (cases "data_ptr (binders w ! x)")
  case None
  then show ?thesis using x by (simp add: binder_size_def entries_of_def)
next
  case (Some a)
  then obtain d where "heap w a = Some d" using wf_ptr_alloc[OF w x] by blast
  then show ?thesis using x Some by (simp add: binder_size_def entries_of_def data_size_def entries_def)
qed








section \<open>Move\<close>

lemma shows_empty_null:
  "x < length (binders w) \<Longrightarrow> data_ptr (binders w ! x) = None \<Longrightarrow> shows_empty w x"
  by (simp add: shows_empty_def binder_size_def binder_cbegin_def binder_cend_def)

text \<open>
  What the two moves do to their source: it is left in the empty state (no instance, size
  0, \<^verbatim>\<open>cbegin()\<close> equal to \<^verbatim>\<open>cend()\<close>), and its \<^verbatim>\<open>read_called\<close> is not written.
\<close>

lemma move_source_state:
  "(binder_move rhs w = Returns y w' \<longrightarrow>
      shows_empty w' rhs \<and> read_called (binders w' ! rhs) = read_called (binders w ! rhs)) \<and>
   (x \<noteq> rhs \<and> binder_move_assign x rhs w = Returns u w' \<longrightarrow>
      shows_empty w' rhs \<and> read_called (binders w' ! rhs) = read_called (binders w ! rhs))"
proof (rule conjI; rule impI)
  assume m: "binder_move rhs w = Returns y w'"
  then have r: "rhs < length (binders w)" by (auto simp: binder_move_def split: if_splits)
  then have b: "binders w' = (binders w)[rhs := \<lparr>data_ptr = None, read_called = read_called (binders w ! rhs)\<rparr>]
        @ [\<lparr>data_ptr = data_ptr (binders w ! rhs), read_called = read_called (binders w ! rhs)\<rparr>]"
    using m by (auto simp: binder_move_def Let_def)
  have n: "binders w' ! rhs = \<lparr>data_ptr = None, read_called = read_called (binders w ! rhs)\<rparr>"
    using r by (simp add: b nth_append)
  have "rhs < length (binders w')" using r b by simp
  then show "shows_empty w' rhs \<and> read_called (binders w' ! rhs) = read_called (binders w ! rhs)"
    using n shows_empty_null[of rhs w'] by simp
next
  assume "x \<noteq> rhs \<and> binder_move_assign x rhs w = Returns u w'"
  then have ne: "x \<noteq> rhs" and m: "binder_move_assign x rhs w = Returns u w'" by auto
  have r: "rhs < length (binders w)" "x < length (binders w)"
    using m by (auto simp: binder_move_assign_def split: if_splits)
  have b: "binders w' = (binders w)[rhs := \<lparr>data_ptr = None, read_called = read_called (binders w ! rhs)\<rparr>,
        x := \<lparr>data_ptr = data_ptr (binders w ! rhs), read_called = read_called (binders w ! rhs)\<rparr>]"
    using m r ne by (auto simp: binder_move_assign_def Let_def)
  have n: "binders w' ! rhs = \<lparr>data_ptr = None, read_called = read_called (binders w ! rhs)\<rparr>"
    using r ne by (simp add: b)
  have "rhs < length (binders w')" using r b by simp
  then show "shows_empty w' rhs \<and> read_called (binders w' ! rhs) = read_called (binders w ! rhs)"
    using n shows_empty_null[of rhs w'] by simp
qed

lemma move_world_2: "binder_move 0 world_2 = Returns 1 world_3"
  by (simp add: binder_move_def world_2_def world_3_def)

lemma reachable_world_3: "reachable world_3"
  using reachable_exec[OF reachable_world_2, of "Move 0" world_3] move_world_2 by simp

text \<open>
  C8: after a move the source is in the empty state and its flag is reset. The code
  leaves the source empty but does not reset the flag. The handle of \<open>world_2\<close> holds
  \<open>(1, 10)\<close> and has \<^verbatim>\<open>read_called\<close> set, a mutable read being its last call. After
  the move construction the moved-from handle holds no instance and shows no entry, and
  \<^verbatim>\<open>read_called\<close> is still set, although no reference to data of this handle exists;
  the move assignment from handle 1 of \<open>world_3\<close> leaves its source the same way. The
  other ways to the empty state, \<^verbatim>\<open>clear()\<close> and the removal of the last entry, leave the
  flag clear.
\<close>

theorem moved_from_keeps_flag:
  "reachable world_2 \<and> data_ptr (binders world_2 ! 0) = Some 0 \<and> read_called (binders world_2 ! 0) \<and>
   binder_move 0 world_2 = Returns 1 world_3 \<and>
   shows_empty world_3 0 \<and> read_called (binders world_3 ! 0) \<and>
   binder_move_assign 0 1 world_3 =
     Returns () (world_3\<lparr>binders := [\<lparr>data_ptr = Some 0, read_called = True\<rparr>,
                                      \<lparr>data_ptr = None, read_called = True\<rparr>]\<rparr>) \<and>
   binder_clear 0 world_2 =
     Returns () (world_2\<lparr>heap := Map.empty, binders := [\<lparr>data_ptr = None, read_called = False\<rparr>]\<rparr>) \<and>
   binder_remove 0 world_2 =
     Returns () (world_2\<lparr>heap := Map.empty, binders := [\<lparr>data_ptr = None, read_called = False\<rparr>]\<rparr>)"
proof -
  have 1: "shows_empty world_3 0"
    by (rule shows_empty_null) (simp_all add: world_3_def)
  have 2: "binder_move_assign 0 1 world_3 =
     Returns () (world_3\<lparr>binders := [\<lparr>data_ptr = Some 0, read_called = True\<rparr>,
                                      \<lparr>data_ptr = None, read_called = True\<rparr>]\<rparr>)"
    by (simp add: binder_move_assign_def world_3_def)
  have 3: "binder_clear 0 world_2 =
     Returns () (world_2\<lparr>heap := Map.empty, binders := [\<lparr>data_ptr = None, read_called = False\<rparr>]\<rparr>)"
    by (simp add: binder_clear_def world_2_def release_def use_count_def)
  have 4: "binder_remove 0 world_2 =
     Returns () (world_2\<lparr>heap := Map.empty, binders := [\<lparr>data_ptr = None, read_called = False\<rparr>]\<rparr>)"
    by (simp add: binder_remove_def world_2_def get_new_unique_shared_def data_remove_def
        data_size_def list_begin.simps release_def use_count_def Let_def)
  show ?thesis
    using reachable_world_2 move_world_2 1 2 3 4 by (simp add: world_2_def world_3_def)
qed

section \<open>Copy\<close>

text \<open>
  What the two copy operations do for a source whose flag is clear or that holds an
  instance, in a state that satisfies the invariant: the pointer is shared when the
  source's flag is clear (and, for the assignment, when the source holds no instance); a
  copy of the instance, equal to it, is made at a new address when the flag is set; the
  source is left as it is and the target's flag is clear.
\<close>

lemma entries_data_copy: "entries (data_copy d) = entries d"
  by (simp add: data_copy_def entries_def)



text \<open>
  C2 at a moved-from source. The handle 0 of \<open>world_3\<close>, reached by a mutable read
  followed by a move construction, holds no instance and has \<^verbatim>\<open>read_called\<close> set. The
  copy constructor dereferences its null \<^verbatim>\<open>data_ptr\<close>; the copy assignment, which tests
  \<^verbatim>\<open>rhs.data_ptr == nullptr\<close> first, returns and leaves the target empty with its flag
  clear.
\<close>

theorem copy_of_moved_from_undefined:
  "reachable world_3 \<and> data_ptr (binders world_3 ! 0) = None \<and> read_called (binders world_3 ! 0) \<and>
   binder_copy 0 world_3 = Undefined \<and>
   binder_assign 1 0 world_3 =
     Returns () (world_3\<lparr>heap := Map.empty,
       binders := [\<lparr>data_ptr = None, read_called = True\<rparr>, \<lparr>data_ptr = None, read_called = False\<rparr>]\<rparr>)"
  using reachable_world_3
  by (simp add: world_3_def binder_copy_def binder_assign_def release_def use_count_def)

section \<open>Mutations through one handle and what the others show\<close>



text \<open>
  A write through a reference into the instance of a binder whose flag is set: it
  returns, and no other binder shows a change.
\<close>

lemma write_frame:
  assumes w: "wf w" and x: "x < length (binders w)"
    and a: "data_ptr (binders w ! x) = Some a" and f: "read_called (binders w ! x)"
    and d: "heap w a = Some d" "list_deref n (content d) \<noteq> None"
  shows "\<exists>w'. mutate x (Write (Ref a n) v) w = Some w' \<and> wf w' \<and>
           length (binders w') = length (binders w) \<and>
           (\<forall>y. y \<noteq> x \<longrightarrow> entries_of w' y = entries_of w y)"
proof -
  obtain c where c: "list_assign n v (content d) = Some c"
    using list_assign_defined[OF d(2), of v] by auto
  let ?w = "w\<lparr>heap := (heap w)(a \<mapsto> d\<lparr>content := c\<rparr>)\<rparr>"
  have m: "mutate x (Write (Ref a n) v) w = Some ?w" using d(1) c by (simp add: ref_write_def)
  have p: "post (ref_write (Ref a n) v w) = Some ?w" using d(1) c by (simp add: ref_write_def)
  have wf': "wf ?w" using wf_ref_write[OF w p] .
  have "entries_of ?w y = entries_of w y" if "y \<noteq> x" for y
  proof (cases "y < length (binders w)")
    case True
    then have "data_ptr (binders w ! y) \<noteq> Some a"
      using wf_sole[OF w x True a f] that by blast
    then show ?thesis using ref_write_frame[OF p] by simp
  next
    case False
    then show ?thesis by (simp add: entries_of_def)
  qed
  then show ?thesis using m wf' by simp
qed

text \<open>
  A binder whose flag is set holds its instance alone, so a reference into that instance
  points into the instance of no other binder.
\<close>

lemma flagged_reference_apart:
  assumes w: "wf w" and x: "x < length (binders w)"
    and a: "data_ptr (binders w ! x) = Some a" and f: "read_called (binders w ! x)"
    and y: "y \<noteq> x"
  shows "\<not> points_into w y (Ref a n)"
proof
  assume "points_into w y (Ref a n)"
  then have "y < length (binders w)" "data_ptr (binders w ! y) = Some a"
    by (simp_all add: points_into_def)
  then show False using wf_sole[OF w x _ a f] y by blast
qed




lemma entries_of_append:
  "y < length (binders w) \<Longrightarrow> entries_of (w\<lparr>binders := binders w @ [b]\<rparr>) y = entries_of w y"
  by (simp add: entries_of_def nth_append cong: option.case_cong)

lemma binder_copy_effect:
  assumes w: "wf w" and c: "binder_copy rhs w = Returns y w1"
  shows "rhs < length (binders w) \<and> y = length (binders w) \<and> wf w1 \<and>
         length (binders w1) = Suc (length (binders w)) \<and>
         entries_of w1 y = entries_of w rhs \<and>
         (\<forall>z < length (binders w). entries_of w1 z = entries_of w z)"
proof -
  have r: "rhs < length (binders w)" using c by (auto simp: binder_copy_def split: if_splits)
  have wf1: "wf w1" using wf_copy[OF w, of rhs w1] c by simp
  show ?thesis
  proof (cases "read_called (binders w ! rhs)")
    case False
    then have e: "y = length (binders w)"
      "w1 = w\<lparr>binders := binders w @ [\<lparr>data_ptr = data_ptr (binders w ! rhs), read_called = False\<rparr>]\<rparr>"
      using c binder_copy_shares[OF r False] by auto
    have "entries_of w1 (length (binders w)) = entries_of w rhs"
      using r by (simp add: e(2) entries_of_def cong: option.case_cong)
    then show ?thesis using r wf1 e entries_of_append[of _ w] by simp
  next
    case True
    then obtain a where a: "data_ptr (binders w ! rhs) = Some a"
      using c binder_copy_undefined[OF r True] by (cases "data_ptr (binders w ! rhs)") auto
    then obtain d where d: "heap w a = Some d" using wf_ptr[OF w r a] by auto
    have e: "y = length (binders w)"
      "w1 = (snd (make_shared (data_copy d) w))
              \<lparr>binders := binders w @ [\<lparr>data_ptr = Some (next_addr w), read_called = False\<rparr>]\<rparr>"
      using c binder_copy_clones[OF r True a d] by auto
    have 1: "entries_of w1 (length (binders w)) = entries_of w rhs"
      using r a d by (simp add: e(2) entries_of_def make_shared_def entries_data_copy cong: option.case_cong)
    have 2: "entries_of w1 z = entries_of w z" if z: "z < length (binders w)" for z
    proof (cases "data_ptr (binders w ! z)")
      case None
      then show ?thesis using z by (simp add: e(2) entries_of_def make_shared_def nth_append cong: option.case_cong)
    next
      case (Some b)
      then have "b \<noteq> next_addr w" using wf_next_unowned[OF w z] by auto
      then show ?thesis using z Some by (simp add: e(2) entries_of_def make_shared_def nth_append cong: option.case_cong)
    qed
    show ?thesis using r wf1 e(1) 1 2 by (simp add: e(2) make_shared_def)
  qed
qed


section \<open>Value semantics of copies\<close>










text \<open>
  In that example the reference is of the kind the amended statement leaves out: it was
  obtained before the copy and points into the instance that the copy holds. A reference
  that the handle obtains by a mutable \<^verbatim>\<open>read\<close> after the copy points into an
  instance of its own, and a write through it leaves the copy as it was.
\<close>

lemma old_reference_points_into_copy:
  "points_into world_5 1 (Ref 0 0) \<and> ref_valid world_5 (Ref 0 0) \<and>
   binder_read 0 1 world_5 =
     Returns (Ref 1 0)
       (world_5\<lparr>next_addr := 2,
          heap := (heap world_5)(1 \<mapsto> \<lparr>content = [(1, 2, 20), (0, 1, 10)], address = [2 \<mapsto> 1, 1 \<mapsto> 0]\<rparr>),
          binders := [\<lparr>data_ptr = Some 1, read_called = True\<rparr>,
                      \<lparr>data_ptr = Some 0, read_called = False\<rparr>]\<rparr>)"
  by (simp add: points_into_def ref_valid_def world_5_def binder_read_def
      get_new_unique_shared_def make_shared_def data_copy_def map_insert_def data_read_def
      use_count_def release_def Let_def)

section \<open>Iteration\<close>

lemma list_deref_split:
  "distinct (map fst (xs @ (n, e) # ys)) \<Longrightarrow> list_deref n (xs @ (n, e) # ys) = Some e"
  by (induction xs) auto

lemma iterate_suffix:
  assumes h: "heap w a = Some d"
  shows "content d = xs @ ys \<Longrightarrow> distinct (map fst (content d)) \<Longrightarrow> length ys < n \<Longrightarrow>
         iterate n \<lparr>list_iterator = Some (list_begin ys), obj_ptr = Some a\<rparr>
           \<lparr>list_iterator = Some End, obj_ptr = Some a\<rparr> w = Some (map (\<lambda>e. snd (snd e)) ys)"
proof (induction ys arbitrary: xs n)
  case Nil
  then show ?case by (cases n) auto
next
  case (Cons e ys)
  obtain m k v where e: "e = (m, k, v)" by (cases e) auto
  obtain n' where n: "n = Suc n'" "length ys < n'" using Cons.prems(3) by (cases n) auto
  have c: "content d = (xs @ [e]) @ ys" using Cons.prems(1) by simp
  have dd: "distinct (map fst (xs @ (m, k, v) # ys))" using Cons.prems(1,2) e by simp
  have 1: "list_deref m (content d) = Some (k, v)"
    using list_deref_split[OF dd] Cons.prems(1) e by simp
  have 2: "list_next m (content d) = Some (list_begin ys)"
    using list_next_split[OF dd] Cons.prems(1) e by simp
  have ih: "iterate n' \<lparr>list_iterator = Some (list_begin ys), obj_ptr = Some a\<rparr>
           \<lparr>list_iterator = Some End, obj_ptr = Some a\<rparr> w = Some (map (\<lambda>e. snd (snd e)) ys)"
    using Cons.IH[OF c Cons.prems(2) n(2)] .
  show ?case
    using h 1 2 ih by (simp add: n(1) e iterator_deref_def iterator_next_def)
qed

lemma iterate_entries:
  assumes w: "wf w" and x: "x < length (binders w)" and n: "length (entries_of w x) < n"
  shows "\<exists>i j. binder_cbegin x w = Returns i w \<and> binder_cend x w = Returns j w \<and>
           iterate n i j w = Some (map snd (entries_of w x))"
proof (cases "data_ptr (binders w ! x)")
  case None
  obtain n' where "n = Suc n'" using n by (cases n) auto
  then show ?thesis using x None by (simp add: binder_cbegin_def binder_cend_def entries_of_def)
next
  case (Some a)
  then obtain d where d: "heap w a = Some d" "inv_data d" using wf_ptr_alloc[OF w x] by blast
  have e: "entries_of w x = map snd (content d)" using x Some d(1) by (simp add: entries_of_def entries_def)
  have "iterate n \<lparr>list_iterator = Some (list_begin (content d)), obj_ptr = Some a\<rparr>
           \<lparr>list_iterator = Some End, obj_ptr = Some a\<rparr> w = Some (map (\<lambda>e. snd (snd e)) (content d))"
    using iterate_suffix[OF d(1), of "[]" "content d" n] inv_data_distinct[OF d(2)] n e by simp
  then show ?thesis
    using x Some d(1) e by (simp add: binder_cbegin_def binder_cend_def data_cbegin_def data_cend_def comp_def)
qed

section \<open>Reads, writes through a reference, and the scenario of the specification\<close>

lemma binder_read_const_value:
  assumes w: "wf w" and x: "x < length (binders w)" and v: "map_of (entries_of w x) k = Some v"
  shows "binder_read_const x k w = Returns v w"
proof -
  have k: "k \<in> fst ` set (entries_of w x)" using map_of_SomeD[OF v] by force
  then obtain a where a: "data_ptr (binders w ! x) = Some a"
    using wf_null_iff[OF w x] by (cases "data_ptr (binders w ! x)") auto
  then obtain d where d: "heap w a = Some d" using wf_ptr_alloc[OF w x] by blast
  have c: "cur w x = d" using a d by (simp add: cur_def)
  have "k \<in> dom (address d)" using k wf_keys_cur[OF w x] c by simp
  then obtain v' where r: "data_read_const k d = Returns v' d" "map_of (entries d) k = Some v'"
    using data_read_const_returns[OF wf_inv_cur[OF w x], of k] c by auto
  have "v' = v" using r(2) v wf_entries_cur[OF w x] c by simp
  then show ?thesis using x a d r(1) by (simp add: binder_read_const_def)
qed

lemma binder_read_returns:
  assumes w: "wf w" and x: "x < length (binders w)" and k: "k \<in> fst ` set (entries_of w x)"
  shows "\<exists>w' p n d u. binder_read x k w = Returns (Ref p n) w' \<and> wf w' \<and>
           length (binders w') = length (binders w) \<and>
           (\<forall>y. entries_of w' y = entries_of w y) \<and>
           data_ptr (binders w' ! x) = Some p \<and> read_called (binders w' ! x) \<and>
           heap w' p = Some d \<and> list_deref n (content d) = Some (k, u)"
proof -
  have nn: "data_ptr (binders w ! x) \<noteq> None" using wf_null_iff[OF w x] k by auto
  obtain n u where d: "data_read k (cur w x) = Returns n (cur w x)"
    "list_deref n (content (cur w x)) = Some (k, u)"
    using data_read_returns[OF wf_inv_cur[OF w x], of k] k wf_keys_cur[OF w x] by auto
  obtain p w' where c: "cow False (data_read k) True False x w = Returns (p, n) w'" "wf w'"
    "cow_post w x True False p (cur w x) w'"
    using cow_returns[where f="data_read k" and null_ok=False and flag=True, OF w x good_read _ d(1)] nn
    by auto
  have r: "binder_read x k w = Returns (Ref p n) w'" using c(1) by (simp add: read_cow)
  have f: "length (binders w') = length (binders w)" "entries_of w' x = entries (cur w x)"
    "\<forall>y. y \<noteq> x \<longrightarrow> entries_of w' y = entries_of w y"
    using cow_post_frame_all[OF c(3) x] by blast+
  have e: "\<forall>y. entries_of w' y = entries_of w y"
    using f(2,3) wf_entries_cur[OF w x] by metis
  have s: "data_ptr (binders w' ! x) = Some p" "read_called (binders w' ! x)" "heap w' p = Some (cur w x)"
    using cow_post_self(1,2)[OF c(3) x] by simp_all
  show ?thesis using r c(2) f(1) e s d(2) by blast
qed

lemma map_update_key:
  assumes "k \<notin> fst ` set xs" "k \<notin> fst ` set ys"
  shows "map (\<lambda>e. if fst e = k then (k, v) else e) (xs @ (k, u) # ys) = xs @ (k, v) # ys"
proof -
  have "map (\<lambda>e. if fst e = k then (k, v) else e) zs = zs" if "k \<notin> fst ` set zs"
    for zs :: "('a \<times> 'b) list"
    using that by (induction zs) auto
  then show ?thesis using assms by simp
qed

lemma write_through:
  assumes w: "wf w" and x: "x < length (binders w)"
    and p: "data_ptr (binders w ! x) = Some p" and f: "read_called (binders w ! x)"
    and d: "heap w p = Some d" and n: "list_deref n (content d) = Some (k, u)"
  shows "\<exists>w'. ref_write (Ref p n) v w = Returns () w' \<and> wf w' \<and>
           length (binders w') = length (binders w) \<and>
           entries_of w' x = map (\<lambda>e. if fst e = k then (k, v) else e) (entries_of w x) \<and>
           (\<forall>y. y \<noteq> x \<longrightarrow> entries_of w' y = entries_of w y)"
proof -
  have i: "inv_data d" using wf_cell[OF w d] by blast
  have "(n, k, u) \<in> set (content d)"
    using n inv_data_distinct[OF i] by (simp add: list_deref_Some_iff)
  then obtain xs ys where c: "content d = xs @ (n, k, u) # ys" by (meson split_list)
  have dd: "distinct (map fst (xs @ (n, k, u) # ys))" "distinct (map fst (map snd (xs @ (n, k, u) # ys)))"
    using inv_data_distinct[OF i] unfolding c by blast+
  have a: "list_assign n v (content d) = Some (xs @ (n, k, v) # ys)"
    using dd(1) unfolding c by (rule list_assign_split)
  let ?w = "w\<lparr>heap := (heap w)(p \<mapsto> d\<lparr>content := xs @ (n, k, v) # ys\<rparr>)\<rparr>"
  have r: "ref_write (Ref p n) v w = Returns () ?w" using d a by (simp add: ref_write_def)
  have t: "list_deref n (content d) \<noteq> None" using n by simp
  obtain w' where m: "mutate x (Write (Ref p n) v) w = Some w'" "wf w'"
    "length (binders w') = length (binders w)" "\<forall>y. y \<noteq> x \<longrightarrow> entries_of w' y = entries_of w y"
    using write_frame[OF w x p f d t] by blast
  have e: "w' = ?w" using m(1) r by simp
  have k: "k \<notin> fst ` set (map snd xs)" "k \<notin> fst ` set (map snd ys)"
    using dd(2) by (auto simp: image_iff)
  have "entries_of w x = map snd xs @ (k, u) # map snd ys"
    using x p d by (simp add: entries_of_def entries_def c)
  moreover have "entries_of ?w x = map snd xs @ (k, v) # map snd ys"
    using x p by (simp add: entries_of_def entries_def)
  ultimately have "entries_of ?w x = map (\<lambda>e. if fst e = k then (k, v) else e) (entries_of w x)"
    using map_update_key[OF k] by simp
  then show ?thesis using r m(2,3,4) e by simp
qed

text \<open>
  The writes that the amended C1 leaves out are seen: a write through a valid reference
  that points into the instance of a handle \<open>y\<close> returns and changes the value that
  \<open>y\<close> shows at the key of the node.
\<close>

lemma write_seen_by_holder:
  assumes w: "wf w" and y: "points_into w y (Ref a n)"
    and d: "heap w a = Some d" and n: "list_deref n (content d) = Some (k, u)"
  shows "\<exists>w'. ref_write (Ref a n) v w = Returns () w' \<and>
           entries_of w' y = map (\<lambda>e. if fst e = k then (k, v) else e) (entries_of w y) \<and>
           (k, u) \<in> set (entries_of w y) \<and> (k, v) \<in> set (entries_of w' y)"
proof -
  have yl: "y < length (binders w)" and p: "data_ptr (binders w ! y) = Some a"
    using y by (simp_all add: points_into_def)
  have i: "inv_data d" using wf_cell[OF w d] by blast
  have "(n, k, u) \<in> set (content d)"
    using n inv_data_distinct[OF i] by (simp add: list_deref_Some_iff)
  then obtain xs ys where c: "content d = xs @ (n, k, u) # ys" by (meson split_list)
  have dd: "distinct (map fst (xs @ (n, k, u) # ys))" "distinct (map fst (map snd (xs @ (n, k, u) # ys)))"
    using inv_data_distinct[OF i] unfolding c by blast+
  have a: "list_assign n v (content d) = Some (xs @ (n, k, v) # ys)"
    using dd(1) unfolding c by (rule list_assign_split)
  let ?w = "w\<lparr>heap := (heap w)(a \<mapsto> d\<lparr>content := xs @ (n, k, v) # ys\<rparr>)\<rparr>"
  have r: "ref_write (Ref a n) v w = Returns () ?w" using d a by (simp add: ref_write_def)
  have k: "k \<notin> fst ` set (map snd xs)" "k \<notin> fst ` set (map snd ys)"
    using dd(2) by (auto simp: image_iff)
  have e: "entries_of w y = map snd xs @ (k, u) # map snd ys"
    using yl p d by (simp add: entries_of_def entries_def c)
  have e': "entries_of ?w y = map snd xs @ (k, v) # map snd ys"
    using yl p by (simp add: entries_of_def entries_def)
  have "entries_of ?w y = map (\<lambda>e. if fst e = k then (k, v) else e) (entries_of w y)"
    using map_update_key[OF k] e e' by simp
  then show ?thesis using r e e' by simp
qed

lemma binder_copy_returns:
  assumes w: "wf w" and r: "rhs < length (binders w)"
    and c: "entries_of w rhs \<noteq> [] \<or> \<not> read_called (binders w ! rhs)"
  shows "\<exists>w1. binder_copy rhs w = Returns (length (binders w)) w1"
proof (cases "read_called (binders w ! rhs)")
  case False
  then show ?thesis using binder_copy_shares[OF r] by blast
next
  case True
  then obtain a where a: "data_ptr (binders w ! rhs) = Some a"
    using c wf_null_iff[OF w r] by (cases "data_ptr (binders w ! rhs)") auto
  then obtain d where "heap w a = Some d" using wf_ptr_alloc[OF w r] by blast
  then show ?thesis using binder_copy_clones[OF r True a] by blast
qed

text \<open>
  C4. From the state without handles: a handle is constructed; \<^verbatim>\<open>insert_front("b", 2)\<close>,
  \<^verbatim>\<open>insert_front("a", 1)\<close> and \<^verbatim>\<open>insert_after("a", "c", 3)\<close> return and the handle shows
  a(1), c(3), b(2), and an iteration from \<^verbatim>\<open>cbegin()\<close> to \<^verbatim>\<open>cend()\<close> yields 1, 3, 2;
  the constant \<^verbatim>\<open>read("c")\<close> returns 3; \<^verbatim>\<open>remove("a")\<close> returns and the
  handle shows c(3), b(2) and has size 2; the copy construction returns a second handle;
  a mutable \<^verbatim>\<open>read("c")\<close> on the copy and a write of 30 through the reference return;
  then the copy reads 30 at "c" and the original reads 3.
\<close>

theorem specification_scenario:
  "\<exists>w0 w1 w2 w3 w4 w5 w6 w7 r.
     binder_new (start :: (string, nat) world) = Returns 0 w0 \<and>
     binder_insert_front 0 ''b'' 2 w0 = Returns () w1 \<and>
     binder_insert_front 0 ''a'' 1 w1 = Returns () w2 \<and>
     binder_insert_after 0 ''a'' ''c'' 3 w2 = Returns () w3 \<and>
     entries_of w3 0 = [(''a'', 1), (''c'', 3), (''b'', 2)] \<and>
     (\<exists>i j. binder_cbegin 0 w3 = Returns i w3 \<and> binder_cend 0 w3 = Returns j w3 \<and>
        iterate 4 i j w3 = Some [1, 3, 2]) \<and>
     binder_read_const 0 ''c'' w3 = Returns 3 w3 \<and>
     binder_remove_key 0 ''a'' w3 = Returns () w4 \<and>
     entries_of w4 0 = [(''c'', 3), (''b'', 2)] \<and>
     (\<exists>i j. binder_cbegin 0 w4 = Returns i w4 \<and> binder_cend 0 w4 = Returns j w4 \<and>
        iterate 3 i j w4 = Some [3, 2]) \<and>
     binder_size 0 w4 = Returns 2 w4 \<and>
     binder_copy 0 w4 = Returns 1 w5 \<and>
     binder_read 1 ''c'' w5 = Returns r w6 \<and>
     ref_write r 30 w6 = Returns () w7 \<and>
     binder_read_const 1 ''c'' w7 = Returns 30 w7 \<and>
     binder_read_const 0 ''c'' w7 = Returns 3 w7"
proof -
  let ?s = "start :: (string, nat) world"
  let ?w0 = "?s\<lparr>binders := [\<lparr>data_ptr = None, read_called = False\<rparr>]\<rparr>"
  have n: "binder_new ?s = Returns 0 ?w0" by (simp add: binder_new_def start_def)
  have wf0: "wf ?w0" using wf_new[OF wf_start, of ?w0] n by simp
  have l0: "0 < length (binders ?w0)" by simp
  have e0: "entries_of ?w0 0 = []" by (simp add: entries_of_def)
  obtain w1 where s1: "binder_insert_front 0 ''b'' 2 ?w0 = Returns () w1" "wf w1"
    "length (binders w1) = length (binders ?w0)" "entries_of w1 0 = [(''b'', 2)]"
    using binder_insert_front_returns[OF wf0 l0, of "''b''" 2] e0 by auto
  have l1: "0 < length (binders w1)" using s1(3) by simp
  obtain w2 where s2: "binder_insert_front 0 ''a'' 1 w1 = Returns () w2" "wf w2"
    "length (binders w2) = length (binders w1)" "entries_of w2 0 = [(''a'', 1), (''b'', 2)]"
    using binder_insert_front_returns[OF s1(2) l1, of "''a''" 1] s1(4) by auto
  have l2: "0 < length (binders w2)" using s2(3) l1 by simp
  obtain w3 xs pv ys where s3: "binder_insert_after 0 ''a'' ''c'' 3 w2 = Returns () w3" "wf w3"
    "length (binders w3) = length (binders w2)" "entries_of w2 0 = xs @ (''a'', pv) # ys"
    "entries_of w3 0 = xs @ (''a'', pv) # (''c'', 3) # ys"
    using binder_insert_after_returns[OF s2(2) l2, of "''c''" "''a''" 3] s2(4) by auto
  have "xs = [] \<and> pv = 1 \<and> ys = [(''b'', 2)]"
    using s3(4) by (auto simp: s2(4) Cons_eq_append_conv)
  then have e3: "entries_of w3 0 = [(''a'', 1), (''c'', 3), (''b'', 2)]" using s3(5) by simp
  have l3: "0 < length (binders w3)" using s3(3) l2 by simp
  have i3: "\<exists>i j. binder_cbegin 0 w3 = Returns i w3 \<and> binder_cend 0 w3 = Returns j w3 \<and>
        iterate 4 i j w3 = Some [1, 3, 2]"
    using iterate_entries[OF s3(2) l3, of 4] by (simp add: e3)
  have c3: "binder_read_const 0 ''c'' w3 = Returns 3 w3"
    using binder_read_const_value[OF s3(2) l3, of "''c''" 3] by (simp add: e3)
  obtain w4 where s4: "binder_remove_key 0 ''a'' w3 = Returns () w4" "wf w4"
    "length (binders w4) = length (binders w3)" "entries_of w4 0 = [(''c'', 3), (''b'', 2)]"
    using binder_remove_key_returns[OF s3(2) l3, of "''a''"] by (auto simp: e3)
  have l4: "0 < length (binders w4)" using s4(3) l3 by simp
  have i4: "\<exists>i j. binder_cbegin 0 w4 = Returns i w4 \<and> binder_cend 0 w4 = Returns j w4 \<and>
        iterate 3 i j w4 = Some [3, 2]"
    using iterate_entries[OF s4(2) l4, of 3] by (simp add: s4(4))
  have z4: "binder_size 0 w4 = Returns 2 w4" using binder_size_eq[OF s4(2) l4] by (simp add: s4(4))
  have len4: "length (binders w4) = 1"
    using s4(3) s3(3) s2(3) s1(3) by simp
  obtain y w5 where s5: "binder_copy 0 w4 = Returns y w5"
    using binder_copy_returns[OF s4(2) l4] s4(4) by auto
  have f5: "y = 1" "wf w5" "length (binders w5) = 2" "entries_of w5 1 = [(''c'', 3), (''b'', 2)]"
    "entries_of w5 0 = [(''c'', 3), (''b'', 2)]"
    using binder_copy_effect[OF s4(2) s5] len4 s4(4) by auto
  have l5: "1 < length (binders w5)" using f5(3) by simp
  obtain w6 p n d u where s6: "binder_read 1 ''c'' w5 = Returns (Ref p n) w6" "wf w6"
    "length (binders w6) = length (binders w5)" "\<forall>y. entries_of w6 y = entries_of w5 y"
    "data_ptr (binders w6 ! 1) = Some p" "read_called (binders w6 ! 1)"
    "heap w6 p = Some d" "list_deref n (content d) = Some (''c'', u)"
    using binder_read_returns[OF f5(2) l5, of "''c''"] f5(4) by auto
  have l6: "1 < length (binders w6)" using s6(3) l5 by simp
  obtain w7 where s7: "ref_write (Ref p n) 30 w6 = Returns () w7" "wf w7"
    "length (binders w7) = length (binders w6)"
    "entries_of w7 1 = map (\<lambda>e. if fst e = ''c'' then (''c'', 30) else e) (entries_of w6 1)"
    "\<forall>y. y \<noteq> 1 \<longrightarrow> entries_of w7 y = entries_of w6 y"
    using write_through[OF s6(2) l6 s6(5,6,7,8), of 30] by blast
  have e7: "entries_of w7 1 = [(''c'', 30), (''b'', 2)]" "entries_of w7 0 = [(''c'', 3), (''b'', 2)]"
    using s7(4,5) s6(4) f5(4,5) by simp_all
  have l7: "1 < length (binders w7)" "0 < length (binders w7)" using s7(3) l6 by auto
  have m7: "map_of (entries_of w7 1) ''c'' = Some 30" "map_of (entries_of w7 0) ''c'' = Some 3"
    unfolding e7 by simp_all
  have c7: "binder_read_const 1 ''c'' w7 = Returns 30 w7" "binder_read_const 0 ''c'' w7 = Returns 3 w7"
    using binder_read_const_value[OF s7(2) l7(1) m7(1)]
      binder_read_const_value[OF s7(2) l7(2) m7(2)]
    by blast+
  show ?thesis
    using n s1(1) s2(1) s3(1) e3 i3 c3 s4(1,4) i4 z4 s5 f5(1) s6(1) s7(1) c7 by blast
qed

end
